theory Spec2Isabelle
  imports Complex_Main
begin

section \<open>PageRank: data model\<close>

text \<open>
  The program is \<^verbatim>\<open>pagerank.py\<close>. Its numbers are Python floats and ints; the
  embedding computes in exact arithmetic (\<open>real\<close>), so every statement below is about
  the exact values the code's formulas denote, not about rounding.

  A Python \<^verbatim>\<open>dict\<close> is an association list in insertion order whose keys are
  distinct; a Python \<^verbatim>\<open>set\<close> of links is a list without repetition (the order
  is the order in which the set is iterated). A corpus is a dict from a page to its set
  of links. Exceptions are values of \<open>py_error\<close>.
\<close>

datatype py_error = KeyError | IndexError | ZeroDivisionError | ValueError

type_synonym 'p corpus = "('p \<times> 'p list) list"

type_synonym 'p dict = "('p \<times> real) list"

text \<open>\<^verbatim>\<open>d[k]\<close>: the value stored under \<open>k\<close>, or \<^verbatim>\<open>KeyError\<close>.\<close>

definition dict_get :: "('k \<times> 'v) list \<Rightarrow> 'k \<Rightarrow> py_error + 'v" where
  "dict_get d k = (case map_of d k of None \<Rightarrow> Inl KeyError | Some v \<Rightarrow> Inr v)"

text \<open>\<^verbatim>\<open>d[k] = v\<close>: overwrite in place, or append a new key at the end.\<close>

fun dict_set :: "('k \<times> 'v) list \<Rightarrow> 'k \<Rightarrow> 'v \<Rightarrow> ('k \<times> 'v) list" where
  "dict_set [] k v = [(k, v)]"
| "dict_set ((k', v') # d) k v =
     (if k' = k then (k, v) # d else (k', v') # dict_set d k v)"

text \<open>\<^verbatim>\<open>list(d)\<close> / \<^verbatim>\<open>d.keys()\<close> and \<^verbatim>\<open>d.values()\<close>.\<close>

definition keys :: "('k \<times> 'v) list \<Rightarrow> 'k list" where
  "keys d = map fst d"

definition vals :: "('k \<times> 'v) list \<Rightarrow> 'v list" where
  "vals d = map snd d"

text \<open>
  The representation invariant of a corpus (it is a dict of sets), and the two
  invariants that the crawler establishes: every link is a page of the corpus, and no
  page links to itself.
\<close>

definition valid_corpus :: "'p corpus \<Rightarrow> bool" where
  "valid_corpus corpus \<longleftrightarrow>
     distinct (keys corpus) \<and> (\<forall>links \<in> set (vals corpus). distinct links)"

definition no_dangling_links :: "'p corpus \<Rightarrow> bool" where
  "no_dangling_links corpus \<longleftrightarrow>
     (\<forall>links \<in> set (vals corpus). set links \<subseteq> set (keys corpus))"

definition no_self_links :: "'p corpus \<Rightarrow> bool" where
  "no_self_links corpus \<longleftrightarrow> (\<forall>(page, links) \<in> set corpus. page \<notin> set links)"

section \<open>The transition model\<close>

text \<open>
  \<^verbatim>\<open>for i in corpus: prop_distribution[i] = v\<close>, used by both branches of
  \<^verbatim>\<open>transition_model\<close>.
\<close>

fun assign_all :: "'p list \<Rightarrow> real \<Rightarrow> 'p dict \<Rightarrow> 'p dict" where
  "assign_all [] v prop_distribution = prop_distribution"
| "assign_all (i # pages) v prop_distribution =
     assign_all pages v (dict_set prop_distribution i v)"

text \<open>
  \<^verbatim>\<open>for i in corpus[page]: prop_distribution[i] += damping_factor / num_links\<close>.
  The augmented assignment reads the entry first, so a link that is not a key raises
  \<^verbatim>\<open>KeyError\<close>.
\<close>

fun add_links :: "'p list \<Rightarrow> real \<Rightarrow> 'p dict \<Rightarrow> py_error + 'p dict" where
  "add_links [] extra prop_distribution = Inr prop_distribution"
| "add_links (i # links) extra prop_distribution =
     (case dict_get prop_distribution i of
        Inl e \<Rightarrow> Inl e
      | Inr v \<Rightarrow> add_links links extra (dict_set prop_distribution i (v + extra)))"

definition transition_model :: "'p corpus \<Rightarrow> 'p \<Rightarrow> real \<Rightarrow> py_error + 'p dict" where
  "transition_model corpus page damping_factor =
     (let num_pages = length corpus in
      case dict_get corpus page of
        Inl e \<Rightarrow> Inl e
      | Inr links \<Rightarrow>
          (let num_links = length links in
           if num_links > 0 then
             add_links links (damping_factor / real num_links)
               (assign_all (keys corpus) ((1 - damping_factor) / real num_pages) [])
           else
             Inr (assign_all (keys corpus) (1 / real num_pages) [])))"


text \<open>The distribution that \<^verbatim>\<open>transition_model\<close> returns, as one formula.\<close>

definition transition_prob :: "'p corpus \<Rightarrow> 'p list \<Rightarrow> real \<Rightarrow> 'p \<Rightarrow> real" where
  "transition_prob corpus links damping_factor q =
     (if links = [] then 1 / real (length corpus)
      else (1 - damping_factor) / real (length corpus) +
           (if q \<in> set links then damping_factor / real (length links) else 0))"

section \<open>The random source\<close>

text \<open>
  The two functions of Python's \<^verbatim>\<open>random\<close> module that the program calls. The
  random source is a parameter: \<open>rnd t\<close> is the \<open>t\<close>-th value drawn from
  \<^verbatim>\<open>random.random()\<close>, a number in \<open>[0, 1)\<close>.

  \<^verbatim>\<open>random.choice(seq)\<close> raises \<^verbatim>\<open>IndexError\<close> on an empty sequence and
  otherwise returns the element at a uniformly drawn index.
\<close>

definition choice :: "'a list \<Rightarrow> real \<Rightarrow> py_error + 'a" where
  "choice seq u =
     (let i = nat \<lfloor>u * real (length seq)\<rfloor> in
      if i < length seq then Inr (seq ! i) else Inl IndexError)"

text \<open>\<^verbatim>\<open>itertools.accumulate(weights)\<close>: the running totals.\<close>

fun accumulate :: "real list \<Rightarrow> real \<Rightarrow> real list" where
  "accumulate [] running = []"
| "accumulate (w # ws) running = (running + w) # accumulate ws (running + w)"

text \<open>\<^verbatim>\<open>bisect.bisect_right(a, x, lo, hi)\<close>.\<close>

function bisect :: "real list \<Rightarrow> real \<Rightarrow> nat \<Rightarrow> nat \<Rightarrow> nat" where
  "bisect a x lo hi =
     (if lo < hi then
        (let mid = (lo + hi) div 2 in
         if x < a ! mid then bisect a x lo mid else bisect a x (mid + 1) hi)
      else lo)"
  by pat_completeness auto
termination
  by (relation "measure (\<lambda>(a, x, lo, hi). hi - lo)") auto

declare bisect.simps [simp del]

text \<open>
  \<^verbatim>\<open>random.choices(population, weights, k=1)[0]\<close>: the weights are accumulated,
  their total must be positive, and the draw is the population element at the position
  where \<open>u\<close> times the total falls among the running totals.
\<close>

definition choices :: "'a list \<Rightarrow> real list \<Rightarrow> real \<Rightarrow> py_error + 'a" where
  "choices population weights u =
     (let n = length population;
          cum_weights = accumulate weights 0
      in if length cum_weights \<noteq> n then Inl ValueError
         else if cum_weights = [] then Inl IndexError
         else (let total_weight = last cum_weights in
               if total_weight \<le> 0 then Inl ValueError
               else Inr (population ! bisect cum_weights (u * total_weight) 0 (n - 1))))"

section \<open>The sampling estimator\<close>

text \<open>
  \<^verbatim>\<open>for _ in range(1, n)\<close>: the body runs \<open>n - 1\<close> times (not at all when
  \<open>n \<le> 1\<close>). Each pass tallies the current page, computes its transition model and draws
  the next page. \<open>t\<close> counts the draws taken from the random source.
\<close>

fun sample_loop ::
  "'p corpus \<Rightarrow> real \<Rightarrow> (nat \<Rightarrow> real) \<Rightarrow> nat \<Rightarrow> nat \<Rightarrow> 'p dict \<Rightarrow> 'p \<Rightarrow> py_error + 'p dict"
where
  "sample_loop corpus damping_factor rnd t 0 page_rank next_page = Inr page_rank"
| "sample_loop corpus damping_factor rnd t (Suc k) page_rank next_page =
     (case dict_get page_rank next_page of
        Inl e \<Rightarrow> Inl e
      | Inr c \<Rightarrow>
          (case transition_model corpus next_page damping_factor of
             Inl e \<Rightarrow> Inl e
           | Inr model \<Rightarrow>
               (case choices (keys model) (vals model) (rnd t) of
                  Inl e \<Rightarrow> Inl e
                | Inr next_page' \<Rightarrow>
                    sample_loop corpus damping_factor rnd (Suc t) k
                      (dict_set page_rank next_page (c + 1)) next_page')))"

text \<open>
  \<^verbatim>\<open>for key in page_rank.keys(): page_rank[key] /= n\<close>; the division raises
  \<^verbatim>\<open>ZeroDivisionError\<close> when \<open>n = 0\<close>.
\<close>

fun divide_all :: "'p list \<Rightarrow> int \<Rightarrow> 'p dict \<Rightarrow> py_error + 'p dict" where
  "divide_all [] n page_rank = Inr page_rank"
| "divide_all (key # ks) n page_rank =
     (case dict_get page_rank key of
        Inl e \<Rightarrow> Inl e
      | Inr c \<Rightarrow>
          if n = 0 then Inl ZeroDivisionError
          else divide_all ks n (dict_set page_rank key (c / real_of_int n)))"

definition sample_pagerank ::
  "'p corpus \<Rightarrow> real \<Rightarrow> int \<Rightarrow> (nat \<Rightarrow> real) \<Rightarrow> py_error + 'p dict" where
  "sample_pagerank corpus damping_factor n rnd =
     (let page_rank = map (\<lambda>key. (key, 0)) (keys corpus) in
      case choice (keys corpus) (rnd 0) of
        Inl e \<Rightarrow> Inl e
      | Inr next_page \<Rightarrow>
          (case sample_loop corpus damping_factor rnd 1 (nat (n - 1)) page_rank next_page of
             Inl e \<Rightarrow> Inl e
           | Inr page_rank' \<Rightarrow> divide_all (keys page_rank') n page_rank'))"

text \<open>
  The walk of the sampler, for stating what it tallies. \<open>next_draw\<close> is the page
  drawn in one pass of the loop, and \<open>visited \<dots> k page\<close> is the list of the pages
  that are \<^verbatim>\<open>next_page\<close> at the start of \<open>k\<close> successive passes, beginning with
  \<open>page\<close> (the list stops early if a draw raises).
\<close>

definition next_draw :: "'p corpus \<Rightarrow> real \<Rightarrow> real \<Rightarrow> 'p \<Rightarrow> py_error + 'p" where
  "next_draw corpus damping_factor u page =
     (case transition_model corpus page damping_factor of
        Inl e \<Rightarrow> Inl e
      | Inr model \<Rightarrow> choices (keys model) (vals model) u)"

fun visited :: "'p corpus \<Rightarrow> real \<Rightarrow> (nat \<Rightarrow> real) \<Rightarrow> nat \<Rightarrow> nat \<Rightarrow> 'p \<Rightarrow> 'p list" where
  "visited corpus damping_factor rnd t 0 page = []"
| "visited corpus damping_factor rnd t (Suc k) page =
     page # (case next_draw corpus damping_factor (rnd t) page of
               Inl e \<Rightarrow> []
             | Inr page' \<Rightarrow> visited corpus damping_factor rnd (Suc t) k page')"

text \<open>A random source for the examples: every draw is \<open>1/2\<close>.\<close>

definition fixed_source :: "nat \<Rightarrow> real" where
  "fixed_source t = 1 / 2"

section \<open>The iterative estimator\<close>

text \<open>
  The inner loop \<^verbatim>\<open>for page in corpus\<close> that accumulates \<^verbatim>\<open>sum_links\<close> for
  one \<^verbatim>\<open>current_page\<close>. Both \<^verbatim>\<open>if\<close> statements are tried for every page.
\<close>

fun sum_links_loop ::
  "'p corpus \<Rightarrow> nat \<Rightarrow> 'p dict \<Rightarrow> 'p \<Rightarrow> 'p list \<Rightarrow> real \<Rightarrow> py_error + real" where
  "sum_links_loop corpus N page_rank current_page [] sum_links = Inr sum_links"
| "sum_links_loop corpus N page_rank current_page (page # pages) sum_links =
     (case dict_get corpus page of
        Inl e \<Rightarrow> Inl e
      | Inr links \<Rightarrow>
          (case (if current_page \<noteq> page \<and> current_page \<in> set links
                 then (case dict_get page_rank page of
                         Inl e \<Rightarrow> Inl e
                       | Inr r \<Rightarrow> Inr (sum_links + r / real (length links)))
                 else Inr sum_links) of
             Inl e \<Rightarrow> Inl e
           | Inr sum_links1 \<Rightarrow>
               (case (if links = []
                      then (case dict_get page_rank page of
                              Inl e \<Rightarrow> Inl e
                            | Inr r \<Rightarrow>
                                if N = 0 then Inl ZeroDivisionError
                                else Inr (sum_links1 + r / real N))
                      else Inr sum_links1) of
                  Inl e \<Rightarrow> Inl e
                | Inr sum_links2 \<Rightarrow>
                    sum_links_loop corpus N page_rank current_page pages sum_links2)))"

text \<open>
  The first loop of a sweep, \<^verbatim>\<open>for current_page in page_rank\<close>: every new rank is
  computed from \<^verbatim>\<open>page_rank\<close> and stored in \<^verbatim>\<open>calculated_pr\<close>.
\<close>

fun compute_ranks ::
  "'p corpus \<Rightarrow> real \<Rightarrow> nat \<Rightarrow> 'p dict \<Rightarrow> 'p list \<Rightarrow> 'p dict \<Rightarrow> py_error + 'p dict" where
  "compute_ranks corpus damping_factor N page_rank [] calculated_pr = Inr calculated_pr"
| "compute_ranks corpus damping_factor N page_rank (current_page # pages) calculated_pr =
     (case sum_links_loop corpus N page_rank current_page (keys corpus) 0 of
        Inl e \<Rightarrow> Inl e
      | Inr sum_links \<Rightarrow>
          if N = 0 then Inl ZeroDivisionError
          else compute_ranks corpus damping_factor N page_rank pages
                 (dict_set calculated_pr current_page
                    ((1 - damping_factor) / real N + damping_factor * sum_links)))"

text \<open>
  The second loop of a sweep: \<^verbatim>\<open>condition\<close> becomes true when some page moved by
  more than \<open>0.001\<close>, and every page adopts its new rank.
\<close>

fun adopt_ranks ::
  "'p list \<Rightarrow> 'p dict \<Rightarrow> 'p dict \<Rightarrow> bool \<Rightarrow> py_error + ('p dict \<times> bool)" where
  "adopt_ranks [] calculated_pr page_rank condition = Inr (page_rank, condition)"
| "adopt_ranks (current_page # pages) calculated_pr page_rank condition =
     (case dict_get page_rank current_page of
        Inl e \<Rightarrow> Inl e
      | Inr old \<Rightarrow>
          (case dict_get calculated_pr current_page of
             Inl e \<Rightarrow> Inl e
           | Inr new \<Rightarrow>
               adopt_ranks pages calculated_pr (dict_set page_rank current_page new)
                 (condition \<or> \<bar>old - new\<bar> > 1 / 1000)))"

text \<open>One pass of the body of \<^verbatim>\<open>while condition\<close>.\<close>

definition sweep ::
  "'p corpus \<Rightarrow> real \<Rightarrow> nat \<Rightarrow> 'p dict \<Rightarrow> 'p dict \<Rightarrow> py_error + ('p dict \<times> 'p dict \<times> bool)"
where
  "sweep corpus damping_factor N page_rank calculated_pr =
     (case compute_ranks corpus damping_factor N page_rank (keys page_rank) calculated_pr of
        Inl e \<Rightarrow> Inl e
      | Inr calculated_pr' \<Rightarrow>
          (case adopt_ranks (keys page_rank) calculated_pr' page_rank False of
             Inl e \<Rightarrow> Inl e
           | Inr (page_rank', condition) \<Rightarrow> Inr (page_rank', calculated_pr', condition)))"

text \<open>
  The \<^verbatim>\<open>while\<close> loop. It may run forever, so its result is an option:
  \<open>None\<close> is a loop that never stops, \<open>Some (Inl e)\<close> an exception, and
  \<open>Some (Inr page_rank)\<close> the returned ranks.
\<close>

partial_function (option) iterate_loop ::
  "'p corpus \<Rightarrow> real \<Rightarrow> nat \<Rightarrow> 'p dict \<Rightarrow> 'p dict \<Rightarrow> (py_error + 'p dict) option" where
  "iterate_loop corpus damping_factor N page_rank calculated_pr =
     (case sweep corpus damping_factor N page_rank calculated_pr of
        Inl e \<Rightarrow> Some (Inl e)
      | Inr (page_rank', calculated_pr', condition) \<Rightarrow>
          if condition
          then iterate_loop corpus damping_factor N page_rank' calculated_pr'
          else Some (Inr page_rank'))"

text \<open>
  The dict comprehension \<^verbatim>\<open>{page: 1 / N for page in corpus}\<close> divides once per
  page, so an empty corpus divides nothing and raises nothing.
\<close>

definition iterate_pagerank :: "'p corpus \<Rightarrow> real \<Rightarrow> (py_error + 'p dict) option" where
  "iterate_pagerank corpus damping_factor =
     (let N = length corpus;
          page_rank = map (\<lambda>page. (page, 1 / real N)) (keys corpus)
      in iterate_loop corpus damping_factor N page_rank [])"

section \<open>The recurrence of a sweep, as formulas\<close>

text \<open>The rank stored for a page (0 for a page that has none).\<close>

definition rank_of :: "'p dict \<Rightarrow> 'p \<Rightarrow> real" where
  "rank_of page_rank p = (case map_of page_rank p of None \<Rightarrow> 0 | Some v \<Rightarrow> v)"

text \<open>
  What one corpus entry \<open>(q, links)\<close> adds to \<^verbatim>\<open>sum_links\<close> of page \<open>p\<close>, per
  unit of rank of \<open>q\<close>: the two \<^verbatim>\<open>if\<close> statements of the inner loop.
\<close>

definition link_weight :: "nat \<Rightarrow> 'p \<Rightarrow> 'p \<times> 'p list \<Rightarrow> real" where
  "link_weight N p e =
     (if p \<noteq> fst e \<and> p \<in> set (snd e) then 1 / real (length (snd e)) else 0) +
     (if snd e = [] then 1 / real N else 0)"

definition link_sum :: "'p corpus \<Rightarrow> ('p \<Rightarrow> real) \<Rightarrow> 'p \<Rightarrow> real" where
  "link_sum corpus r p = (\<Sum>e\<leftarrow>corpus. link_weight (length corpus) p e * r (fst e))"

definition new_rank :: "'p corpus \<Rightarrow> real \<Rightarrow> ('p \<Rightarrow> real) \<Rightarrow> 'p \<Rightarrow> real" where
  "new_rank corpus damping_factor r p =
     (1 - damping_factor) / real (length corpus) + damping_factor * link_sum corpus r p"

definition next_ranks :: "'p corpus \<Rightarrow> real \<Rightarrow> 'p dict \<Rightarrow> 'p dict" where
  "next_ranks corpus damping_factor page_rank =
     map (\<lambda>p. (p, new_rank corpus damping_factor (rank_of page_rank) p)) (keys corpus)"

text \<open>The ranks before the first sweep, and after \<open>k\<close> sweeps.\<close>

definition initial_ranks :: "'p corpus \<Rightarrow> 'p dict" where
  "initial_ranks corpus = map (\<lambda>page. (page, 1 / real (length corpus))) (keys corpus)"

definition ranks_after :: "'p corpus \<Rightarrow> real \<Rightarrow> nat \<Rightarrow> 'p dict" where
  "ranks_after corpus damping_factor k =
     (next_ranks corpus damping_factor ^^ k) (initial_ranks corpus)"

text \<open>The test that ends the loop: no page moved by more than \<open>0.001\<close>.\<close>

definition converged :: "'p dict \<Rightarrow> 'p dict \<Rightarrow> bool" where
  "converged old new \<longleftrightarrow>
     (\<forall>p \<in> set (keys old). \<bar>rank_of old p - rank_of new p\<bar> \<le> 1 / 1000)"

text \<open>
  The recurrence as the specification words it: the incoming-link sum over every page
  \<open>q\<close> that links to \<open>p\<close>, plus \<open>rank q / N\<close> for every page \<open>q\<close> without links.
\<close>

definition spec_new_rank :: "'p corpus \<Rightarrow> real \<Rightarrow> ('p \<Rightarrow> real) \<Rightarrow> 'p \<Rightarrow> real" where
  "spec_new_rank corpus damping_factor r p =
     (1 - damping_factor) / real (length corpus) +
     damping_factor *
       ((\<Sum>(q, links)\<leftarrow>filter (\<lambda>(q, links). p \<in> set links) corpus.
            r q / real (length links)) +
        (\<Sum>(q, links)\<leftarrow>filter (\<lambda>(q, links). links = []) corpus.
            r q / real (length corpus)))"

text \<open>
  The rank that one sweep takes from the pages that link to themselves: such a link
  counts in the number of links of the page, and the inner loop skips it.
\<close>

definition self_link_loss :: "'p corpus \<Rightarrow> ('p \<Rightarrow> real) \<Rightarrow> real" where
  "self_link_loss corpus r =
     (\<Sum>(q, links)\<leftarrow>filter (\<lambda>(q, links). q \<in> set links) corpus. r q / real (length links))"

section \<open>Example corpora\<close>

text \<open>The symmetric two-cycle and the corpus with a page without links.\<close>

definition two_cycle :: "string corpus" where
  "two_cycle = [(''1.html'', [''2.html'']), (''2.html'', [''1.html''])]"

definition sink_corpus :: "string corpus" where
  "sink_corpus = [(''1.html'', []), (''2.html'', [''1.html''])]"

text \<open>Three pages: 1 and 2 link to each other, 3 links to 1.\<close>

definition three_pages :: "string corpus" where
  "three_pages =
     [(''1.html'', [''2.html'']), (''2.html'', [''1.html'']), (''3.html'', [''1.html''])]"

text \<open>A corpus that breaks the no-self-link invariant: page 1 links to itself and to 2.\<close>

definition self_linked :: "string corpus" where
  "self_linked = [(''1.html'', [''1.html'', ''2.html'']), (''2.html'', [''1.html''])]"

section \<open>Dictionaries: basic facts\<close>

lemma map_of_dict_set: "map_of (dict_set d k v) = (map_of d)(k \<mapsto> v)"
  by (induction d) (auto simp: fun_eq_iff)

lemma keys_dict_set_mem: "k \<in> set (keys d) \<Longrightarrow> keys (dict_set d k v) = keys d"
  by (induction d) (force simp: keys_def)+

lemma keys_dict_set_new: "k \<notin> set (keys d) \<Longrightarrow> keys (dict_set d k v) = keys d @ [k]"
  by (induction d) (auto simp: keys_def)

lemma dict_get_Some: "map_of d k = Some v \<Longrightarrow> dict_get d k = Inr v"
  by (simp add: dict_get_def)

lemma map_of_not_key: "k \<notin> set (keys d) \<Longrightarrow> map_of d k = None"
  by (simp add: keys_def map_of_eq_None_iff)

lemma map_of_key: "k \<in> set (keys d) \<Longrightarrow> \<exists>v. map_of d k = Some v"
  by (cases "map_of d k") (auto simp: keys_def map_of_eq_None_iff)

lemma dict_get_None: "k \<notin> set (keys d) \<Longrightarrow> dict_get d k = Inl KeyError"
  by (simp add: dict_get_def map_of_not_key)

lemma map_of_const_dict:
  "map_of (map (\<lambda>k. (k, f k)) ks) q = (if q \<in> set ks then Some (f q) else None)"
  by (induction ks) auto

lemma keys_const_dict: "keys (map (\<lambda>k. (k, f k)) ks) = ks"
  by (simp add: keys_def comp_def)

lemma vals_const_dict: "vals (map (\<lambda>k. (k, f k)) ks) = map f ks"
  by (simp add: vals_def comp_def)

text \<open>A dict with distinct keys is determined by its keys and its lookups.\<close>

lemma dict_eqI:
  assumes "keys d = keys d'" and "distinct (keys d)" and "map_of d = map_of d'"
  shows "d = d'"
  using assms
proof (induction d arbitrary: d')
  case Nil
  then show ?case by (simp add: keys_def)
next
  case (Cons a d)
  obtain k v where a: "a = (k, v)" by (cases a)
  from Cons.prems(1) obtain b d2 where d': "d' = b # d2"
    by (cases d') (auto simp: keys_def)
  obtain k' v' where b: "b = (k', v')" by (cases b)
  from Cons.prems(1) a b d' have kk: "k' = k" and ks: "keys d = keys d2"
    by (auto simp: keys_def)
  from Cons.prems(3) a b d' kk have vv: "v' = v"
    by (auto simp: fun_eq_iff split: if_splits)
  have nk: "k \<notin> set (keys d)" and dd: "distinct (keys d)"
    using Cons.prems(2) a by (auto simp: keys_def)
  have "map_of d q = map_of d2 q" for q
  proof (cases "q = k")
    case True
    with nk ks show ?thesis
      by (simp add: map_of_not_key)
  next
    case False
    with Cons.prems(3) a b d' kk show ?thesis
      by (auto simp: fun_eq_iff split: if_splits)
  qed
  then have "map_of d = map_of d2" by (simp add: fun_eq_iff)
  with Cons.IH[OF ks dd] have "d = d2" by simp
  with a b d' kk vv show ?case by simp
qed

lemma dict_as_const:
  assumes "distinct (keys d)"
  shows "d = map (\<lambda>k. (k, the (map_of d k))) (keys d)"
proof (rule dict_eqI)
  show "keys d = keys (map (\<lambda>k. (k, the (map_of d k))) (keys d))"
    by (simp add: keys_const_dict)
  show "distinct (keys d)" by fact
  show "map_of d = map_of (map (\<lambda>k. (k, the (map_of d k))) (keys d))"
  proof
    fix q
    show "map_of d q = map_of (map (\<lambda>k. (k, the (map_of d k))) (keys d)) q"
    proof (cases "q \<in> set (keys d)")
      case True
      with map_of_key[OF True] show ?thesis by (auto simp: map_of_const_dict)
    next
      case False
      then show ?thesis by (simp add: map_of_const_dict map_of_not_key)
    qed
  qed
qed

section \<open>The transition model: what it returns\<close>

lemma assign_all_app:
  "distinct pages \<Longrightarrow> set pages \<inter> set (keys acc) = {} \<Longrightarrow>
   assign_all pages v acc = acc @ map (\<lambda>k. (k, v)) pages"
proof (induction pages arbitrary: acc)
  case Nil
  then show ?case by simp
next
  case (Cons i pages)
  have new: "i \<notin> set (keys acc)" using Cons.prems by auto
  have ds: "dict_set acc i v = acc @ [(i, v)]"
    using new by (induction acc) (auto simp: keys_def)
  have "set pages \<inter> set (keys (acc @ [(i, v)])) = {}"
    using Cons.prems by (auto simp: keys_def)
  with Cons.IH[of "acc @ [(i, v)]"] Cons.prems ds show ?case by simp
qed

lemma assign_all_empty:
  "distinct pages \<Longrightarrow> assign_all pages v [] = map (\<lambda>k. (k, v)) pages"
  using assign_all_app[of pages "[]" v] by (simp add: keys_def)

lemma add_links_ok:
  assumes "set links \<subseteq> set (keys acc)" and "distinct links"
  shows "\<exists>dist. add_links links extra acc = Inr dist \<and> keys dist = keys acc \<and>
           (\<forall>q. map_of dist q =
              (if q \<in> set links then map_option (\<lambda>v. v + extra) (map_of acc q)
               else map_of acc q))"
  using assms
proof (induction links arbitrary: acc)
  case Nil
  then show ?case by simp
next
  case (Cons i links)
  from Cons.prems have mem: "i \<in> set (keys acc)" by simp
  then obtain v where v: "map_of acc i = Some v"
    by (cases "map_of acc i") (auto simp: keys_def map_of_eq_None_iff)
  let ?acc = "dict_set acc i (v + extra)"
  have k: "keys ?acc = keys acc" using mem by (rule keys_dict_set_mem)
  from Cons.prems k have "set links \<subseteq> set (keys ?acc)" "distinct links" by auto
  from Cons.IH[OF this] obtain dist where
    d: "add_links links extra ?acc = Inr dist" "keys dist = keys ?acc"
       "\<forall>q. map_of dist q =
          (if q \<in> set links then map_option (\<lambda>v. v + extra) (map_of ?acc q)
           else map_of ?acc q)"
    by blast
  have "add_links (i # links) extra acc = Inr dist"
    using v d(1) by (simp add: dict_get_Some)
  moreover have "keys dist = keys acc" using d(2) k by simp
  moreover have "map_of dist q =
      (if q \<in> set (i # links) then map_option (\<lambda>v. v + extra) (map_of acc q)
       else map_of acc q)" for q
    using d(3) v Cons.prems(2) by (auto simp: map_of_dict_set)
  ultimately show ?case by blast
qed

lemma add_links_dangling:
  "distinct links \<Longrightarrow> \<not> set links \<subseteq> set (keys acc) \<Longrightarrow>
   add_links links extra acc = Inl KeyError"
proof (induction links arbitrary: acc)
  case Nil
  then show ?case by simp
next
  case (Cons i links)
  show ?case
  proof (cases "i \<in> set (keys acc)")
    case False
    then show ?thesis by (simp add: dict_get_None)
  next
    case True
    then obtain v where v: "map_of acc i = Some v"
      by (cases "map_of acc i") (auto simp: keys_def map_of_eq_None_iff)
    have "keys (dict_set acc i (v + extra)) = keys acc"
      using True by (rule keys_dict_set_mem)
    with Cons.prems True have "\<not> set links \<subseteq> set (keys (dict_set acc i (v + extra)))"
      by auto
    with Cons.IH[of "dict_set acc i (v + extra)"] Cons.prems v show ?thesis
      by (simp add: dict_get_Some)
  qed
qed

lemma corpus_lookup:
  "valid_corpus corpus \<Longrightarrow> dict_get corpus page = Inr links \<Longrightarrow>
   (page, links) \<in> set corpus \<and> distinct links \<and> page \<in> set (keys corpus) \<and> corpus \<noteq> []"
  by (auto simp: dict_get_def valid_corpus_def vals_def keys_def
      split: option.splits dest!: map_of_SomeD intro: rev_image_eqI)

lemma transition_model_eq:
  assumes "valid_corpus corpus" and "dict_get corpus page = Inr links"
    and "set links \<subseteq> set (keys corpus)"
  shows "transition_model corpus page damping_factor =
           Inr (map (\<lambda>q. (q, transition_prob corpus links damping_factor q)) (keys corpus))"
proof (cases "links = []")
  case True
  with assms show ?thesis
    by (simp add: transition_model_def transition_prob_def assign_all_empty valid_corpus_def)
next
  case False
  let ?base = "(1 - damping_factor) / real (length corpus)"
  let ?extra = "damping_factor / real (length links)"
  let ?acc = "map (\<lambda>k. (k, ?base)) (keys corpus)"
  have dk: "distinct (keys corpus)" using assms(1) by (simp add: valid_corpus_def)
  have dl: "distinct links" using corpus_lookup[OF assms(1,2)] by simp
  have "set links \<subseteq> set (keys ?acc)" using assms(3) by (simp add: keys_const_dict)
  from add_links_ok[OF this dl, of ?extra] obtain dist where
    d: "add_links links ?extra ?acc = Inr dist" "keys dist = keys ?acc"
       "\<forall>q. map_of dist q =
          (if q \<in> set links then map_option (\<lambda>v. v + ?extra) (map_of ?acc q)
           else map_of ?acc q)"
    by blast
  have "dist = map (\<lambda>q. (q, transition_prob corpus links damping_factor q)) (keys corpus)"
  proof (rule dict_eqI)
    show "keys dist =
        keys (map (\<lambda>q. (q, transition_prob corpus links damping_factor q)) (keys corpus))"
      using d(2) by (simp add: keys_const_dict)
    show "distinct (keys dist)" using d(2) dk by (simp add: keys_const_dict)
    show "map_of dist =
        map_of (map (\<lambda>q. (q, transition_prob corpus links damping_factor q)) (keys corpus))"
      using d(3) assms(3) False
      by (auto simp: fun_eq_iff map_of_const_dict transition_prob_def)
  qed
  with d(1) False assms(2) dk show ?thesis
    by (simp add: transition_model_def assign_all_empty)
qed

text \<open>A link that is not a page of the corpus makes the augmented assignment fail.\<close>

lemma transition_model_dangling:
  assumes "valid_corpus corpus" and "dict_get corpus page = Inr links"
    and "\<not> set links \<subseteq> set (keys corpus)"
  shows "transition_model corpus page damping_factor = Inl KeyError"
proof -
  have dk: "distinct (keys corpus)" using assms(1) by (simp add: valid_corpus_def)
  have dl: "distinct links" using corpus_lookup[OF assms(1,2)] by simp
  have ne: "links \<noteq> []" using assms(3) by auto
  let ?acc = "map (\<lambda>k. (k, (1 - damping_factor) / real (length corpus))) (keys corpus)"
  have "\<not> set links \<subseteq> set (keys ?acc)" using assms(3) by (simp add: keys_const_dict)
  from add_links_dangling[OF dl this] ne assms(2) dk show ?thesis
    by (simp add: transition_model_def assign_all_empty)
qed

lemma sum_list_indicator:
  "(\<Sum>q\<leftarrow>ks. if P q then c else (0::real)) = real (length (filter P ks)) * c"
  by (induction ks) (auto simp: algebra_simps)

lemma length_filter_links:
  assumes "distinct ks" and "distinct links" and "set links \<subseteq> set ks"
  shows "length (filter (\<lambda>q. q \<in> set links) ks) = length links"
proof -
  have "length (filter (\<lambda>q. q \<in> set links) ks) = card ({q. q \<in> set links} \<inter> set ks)"
    using assms(1) by (rule distinct_length_filter)
  also have "{q. q \<in> set links} \<inter> set ks = set links" using assms(3) by auto
  also have "card (set links) = length links" using assms(2) by (rule distinct_card)
  finally show ?thesis .
qed

lemma sum_transition_prob:
  assumes "distinct ks" and "distinct links" and "set links \<subseteq> set ks"
    and "length corpus = length ks" and "ks \<noteq> []"
  shows "(\<Sum>q\<leftarrow>ks. transition_prob corpus links d q) = 1"
proof (cases "links = []")
  case True
  then show ?thesis using assms(4,5) by (simp add: transition_prob_def sum_list_triv)
next
  case False
  have "(\<Sum>q\<leftarrow>ks. transition_prob corpus links d q) =
        (\<Sum>q\<leftarrow>ks. (1 - d) / real (length corpus)) +
        (\<Sum>q\<leftarrow>ks. if q \<in> set links then d / real (length links) else 0)"
    using False by (simp add: transition_prob_def sum_list_addf)
  also have "\<dots> = (1 - d) + d"
    using False assms by (simp add: sum_list_triv sum_list_indicator length_filter_links)
  finally show ?thesis by simp
qed

lemma transition_model_total:
  assumes "valid_corpus corpus" and "dict_get corpus page = Inr links"
    and "set links \<subseteq> set (keys corpus)"
  shows "(\<Sum>q\<leftarrow>keys corpus. transition_prob corpus links damping_factor q) = 1"
proof -
  have "distinct (keys corpus)" "distinct links" "corpus \<noteq> []"
    using assms(1) corpus_lookup[OF assms(1,2)] by (auto simp: valid_corpus_def)
  then show ?thesis
    using assms(3) by (intro sum_transition_prob) (auto simp: keys_def)
qed

lemma valid_two_cycle: "valid_corpus two_cycle"
  by (simp add: valid_corpus_def two_cycle_def keys_def vals_def)

lemma two_cycle_lookup: "dict_get two_cycle ''1.html'' = Inr [''2.html'']"
  by (simp add: dict_get_def two_cycle_def)

lemma two_cycle_links: "set [''2.html''] \<subseteq> set (keys two_cycle)"
  by (simp add: two_cycle_def keys_def)

section \<open>The sampling estimator: every run succeeds and tallies \<open>n - 1\<close> visits\<close>

lemma bisect_stop: "\<not> lo < hi \<Longrightarrow> bisect a x lo hi = lo"
  by (subst bisect.simps) simp

lemma bisect_le: "lo \<le> hi \<Longrightarrow> bisect a x lo hi \<le> hi"
proof (induction a x lo hi rule: bisect.induct)
  case (1 a x lo hi)
  show ?case
  proof (cases "lo < hi")
    case False
    with "1.prems" show ?thesis by (simp add: bisect_stop)
  next
    case True
    let ?mid = "(lo + hi) div 2"
    show ?thesis
    proof (cases "x < a ! ?mid")
      case True
      have "lo \<le> ?mid" using \<open>lo < hi\<close> by linarith
      from "1.IH"(1)[OF \<open>lo < hi\<close> refl True this] have "bisect a x lo ?mid \<le> hi"
        using \<open>lo < hi\<close> by linarith
      with \<open>lo < hi\<close> True show ?thesis
        by (subst bisect.simps) (simp add: Let_def)
    next
      case False
      have "?mid + 1 \<le> hi" using \<open>lo < hi\<close> by linarith
      from "1.IH"(2)[OF \<open>lo < hi\<close> refl False this] \<open>lo < hi\<close> False show ?thesis
        by (subst bisect.simps) (simp add: Let_def)
    qed
  qed
qed

lemma length_accumulate: "length (accumulate ws r) = length ws"
  by (induction ws arbitrary: r) auto

lemma accumulate_Nil_iff: "accumulate ws r = [] \<longleftrightarrow> ws = []"
  by (cases ws) auto

lemma last_accumulate: "ws \<noteq> [] \<Longrightarrow> last (accumulate ws r) = r + sum_list ws"
proof (induction ws arbitrary: r)
  case Nil
  then show ?case by simp
next
  case (Cons w ws)
  then show ?case by (cases ws) (auto simp: algebra_simps)
qed

lemma choices_ok:
  assumes "length weights = length population" and "population \<noteq> []"
    and "0 < sum_list weights"
  shows "\<exists>x \<in> set population. choices population weights u = Inr x"
proof -
  have ne: "weights \<noteq> []" using assms(1,2) by auto
  let ?i = "bisect (accumulate weights 0) (u * last (accumulate weights 0)) 0
              (length population - 1)"
  have "?i \<le> length population - 1" by (rule bisect_le) simp
  with assms(2) have "?i < length population" by (cases population) auto
  then have "population ! ?i \<in> set population" by simp
  moreover have "choices population weights u = Inr (population ! ?i)"
    using assms ne
    by (simp add: choices_def Let_def length_accumulate last_accumulate accumulate_Nil_iff)
  ultimately show ?thesis by auto
qed

lemma choice_ok:
  assumes "seq \<noteq> []" and "0 \<le> u" and "u < 1"
  shows "\<exists>x \<in> set seq. choice seq u = Inr x"
proof -
  let ?n = "real (length seq)"
  have pos: "0 < ?n" using assms(1) by simp
  have "u * ?n < ?n" using assms(3) pos by simp
  then have "\<lfloor>u * ?n\<rfloor> < int (length seq)" by (simp add: floor_less_iff)
  then have "nat \<lfloor>u * ?n\<rfloor> < length seq" using pos by linarith
  then show ?thesis by (auto simp: choice_def Let_def)
qed

lemma choice_empty: "choice [] u = Inl IndexError"
  by (simp add: choice_def)

lemma rank_of_Some: "map_of d k = Some v \<Longrightarrow> rank_of d k = v"
  by (simp add: rank_of_def)

lemma dict_get_rank_of: "k \<in> set (keys d) \<Longrightarrow> dict_get d k = Inr (rank_of d k)"
  using map_of_key[of k d] by (auto simp: dict_get_def rank_of_def)

lemma rank_of_dict_set: "rank_of (dict_set d k v) q = (if q = k then v else rank_of d q)"
  by (simp add: rank_of_def map_of_dict_set)

lemma rank_of_const_dict:
  "q \<in> set ks \<Longrightarrow> rank_of (map (\<lambda>k. (k, f k)) ks) q = f q"
  by (simp add: rank_of_def map_of_const_dict)

lemma vals_as_rank_of: "distinct (keys d) \<Longrightarrow> vals d = map (rank_of d) (keys d)"
proof (induction d)
  case Nil
  then show ?case by (simp add: vals_def keys_def)
next
  case (Cons a d)
  obtain k v where a: "a = (k, v)" by (cases a)
  from Cons.prems a have nk: "k \<notin> set (keys d)" and dd: "distinct (keys d)"
    by (auto simp: keys_def)
  have "map (rank_of (a # d)) (keys d) = map (rank_of d) (keys d)"
    using nk a by (intro map_cong) (auto simp: rank_of_def)
  with Cons.IH[OF dd] a show ?case
    by (simp add: vals_def keys_def rank_of_def)
qed

lemma sum_list_update_one:
  assumes "distinct ks" and "k \<in> set ks"
  shows "(\<Sum>q\<leftarrow>ks. if q = k then v else f q) = (\<Sum>q\<leftarrow>ks. f q) - f k + (v::real)"
  using assms
proof (induction ks)
  case Nil
  then show ?case by simp
next
  case (Cons a ks)
  show ?case
  proof (cases "a = k")
    case True
    with Cons.prems have "k \<notin> set ks" by simp
    then have "(\<Sum>q\<leftarrow>ks. if q = k then v else f q) = (\<Sum>q\<leftarrow>ks. f q)"
      by (intro arg_cong[where f = sum_list] map_cong) auto
    with True show ?thesis by simp
  next
    case False
    with Cons show ?thesis by simp
  qed
qed

lemma sum_vals_dict_set:
  assumes "distinct (keys d)" and "k \<in> set (keys d)"
  shows "sum_list (vals (dict_set d k v)) = sum_list (vals d) - rank_of d k + v"
proof -
  have k: "keys (dict_set d k v) = keys d" using assms(2) by (rule keys_dict_set_mem)
  have "vals (dict_set d k v) = map (\<lambda>q. if q = k then v else rank_of d q) (keys d)"
    using vals_as_rank_of[of "dict_set d k v"] assms(1) k
    by (simp add: rank_of_dict_set)
  then show ?thesis
    using sum_list_update_one[OF assms, of v "rank_of d"] vals_as_rank_of[OF assms(1)]
    by simp
qed

lemma sample_loop_ok:
  assumes "valid_corpus corpus" and "no_dangling_links corpus"
    and "keys page_rank = keys corpus" and "next_page \<in> set (keys corpus)"
  shows "\<exists>page_rank'. sample_loop corpus d rnd t k page_rank next_page = Inr page_rank' \<and>
           keys page_rank' = keys corpus \<and>
           sum_list (vals page_rank') = sum_list (vals page_rank) + real k"
  using assms(3,4)
proof (induction k arbitrary: t page_rank next_page)
  case 0
  then show ?case by simp
next
  case (Suc k)
  have dk: "distinct (keys corpus)" using assms(1) by (simp add: valid_corpus_def)
  obtain links where l: "dict_get corpus next_page = Inr links"
    using Suc.prems(2) map_of_key[of next_page corpus] by (auto simp: dict_get_def)
  have "links \<in> set (vals corpus)"
    using corpus_lookup[OF assms(1) l] by (force simp: vals_def)
  then have sub: "set links \<subseteq> set (keys corpus)"
    using assms(2) by (simp add: no_dangling_links_def)
  let ?model = "map (\<lambda>q. (q, transition_prob corpus links d q)) (keys corpus)"
  have tm: "transition_model corpus next_page d = Inr ?model"
    by (rule transition_model_eq[OF assms(1) l sub])
  have ne: "keys corpus \<noteq> []" using Suc.prems(2) by auto
  have "0 < sum_list (vals ?model)"
    using transition_model_total[OF assms(1) l sub, of d] by (simp add: vals_const_dict)
  then obtain np where np: "np \<in> set (keys corpus)"
      "choices (keys ?model) (vals ?model) (rnd t) = Inr np"
    using choices_ok[of "vals ?model" "keys ?model" "rnd t"] ne
    by (auto simp: keys_const_dict vals_const_dict)
  let ?c = "rank_of page_rank next_page"
  let ?pr = "dict_set page_rank next_page (?c + 1)"
  have mem: "next_page \<in> set (keys page_rank)" using Suc.prems by simp
  have kpr: "keys ?pr = keys corpus"
    using keys_dict_set_mem[OF mem] Suc.prems(1) by simp
  from Suc.IH[OF kpr np(1), of "Suc t"] obtain res where
    res: "sample_loop corpus d rnd (Suc t) k ?pr np = Inr res" "keys res = keys corpus"
         "sum_list (vals res) = sum_list (vals ?pr) + real k"
    by blast
  have "sum_list (vals ?pr) = sum_list (vals page_rank) + 1"
    using sum_vals_dict_set[of page_rank next_page "?c + 1"] mem dk Suc.prems(1) by simp
  with res tm np(2) dict_get_rank_of[OF mem] show ?case by simp
qed

lemma divide_all_ok:
  assumes "n \<noteq> 0" and "set ks \<subseteq> set (keys page_rank)" and "distinct ks"
  shows "\<exists>page_rank'. divide_all ks n page_rank = Inr page_rank' \<and>
           keys page_rank' = keys page_rank \<and>
           (\<forall>q. rank_of page_rank' q =
              (if q \<in> set ks then rank_of page_rank q / real_of_int n else rank_of page_rank q))"
  using assms(2,3)
proof (induction ks arbitrary: page_rank)
  case Nil
  then show ?case by simp
next
  case (Cons key ks)
  have mem: "key \<in> set (keys page_rank)" using Cons.prems by simp
  let ?pr = "dict_set page_rank key (rank_of page_rank key / real_of_int n)"
  have k: "keys ?pr = keys page_rank" using mem by (rule keys_dict_set_mem)
  with Cons.prems have "set ks \<subseteq> set (keys ?pr)" "distinct ks" by auto
  from Cons.IH[OF this] obtain res where
    res: "divide_all ks n ?pr = Inr res" "keys res = keys ?pr"
         "\<forall>q. rank_of res q = (if q \<in> set ks then rank_of ?pr q / real_of_int n else rank_of ?pr q)"
    by blast
  have "divide_all (key # ks) n page_rank = Inr res"
    using res(1) assms(1) dict_get_rank_of[OF mem] by simp
  moreover have "keys res = keys page_rank" using res(2) k by simp
  moreover have "rank_of res q =
      (if q \<in> set (key # ks) then rank_of page_rank q / real_of_int n else rank_of page_rank q)"
    for q
    using res(3) Cons.prems(2) by (auto simp: rank_of_dict_set)
  ultimately show ?case by blast
qed

lemma divide_all_zero:
  "ks \<noteq> [] \<Longrightarrow> set ks \<subseteq> set (keys page_rank) \<Longrightarrow>
   divide_all ks 0 page_rank = Inl ZeroDivisionError"
  by (cases ks) (auto simp: dict_get_rank_of)

lemma sample_pagerank_ok:
  assumes "valid_corpus corpus" and "no_dangling_links corpus" and "corpus \<noteq> []"
    and "n \<noteq> 0" and "0 \<le> rnd 0" and "rnd 0 < 1"
  shows "\<exists>page_rank. sample_pagerank corpus d n rnd = Inr page_rank \<and>
           keys page_rank = keys corpus \<and>
           sum_list (vals page_rank) = real (nat (n - 1)) / real_of_int n \<and>
           (n \<le> 1 \<longrightarrow> page_rank = map (\<lambda>key. (key, 0)) (keys corpus))"
proof -
  have dk: "distinct (keys corpus)" using assms(1) by (simp add: valid_corpus_def)
  have ne: "keys corpus \<noteq> []" using assms(3) by (simp add: keys_def)
  let ?zero = "map (\<lambda>key. (key, 0::real)) (keys corpus)"
  obtain np where np: "np \<in> set (keys corpus)" "choice (keys corpus) (rnd 0) = Inr np"
    using choice_ok[OF ne assms(5,6)] by blast
  have kz: "keys ?zero = keys corpus" by (simp add: keys_const_dict)
  from sample_loop_ok[OF assms(1,2) kz np(1), of d rnd 1 "nat (n - 1)"] obtain pr where
    pr: "sample_loop corpus d rnd 1 (nat (n - 1)) ?zero np = Inr pr" "keys pr = keys corpus"
        "sum_list (vals pr) = sum_list (vals ?zero) + real (nat (n - 1))"
    by blast
  have s0: "sum_list (vals ?zero) = 0" by (simp add: vals_const_dict)
  have "set (keys pr) \<subseteq> set (keys pr)" "distinct (keys pr)" using pr(2) dk by auto
  from divide_all_ok[OF assms(4) this] obtain res where
    res: "divide_all (keys pr) n pr = Inr res" "keys res = keys pr"
         "\<forall>q. rank_of res q =
            (if q \<in> set (keys pr) then rank_of pr q / real_of_int n else rank_of pr q)"
    by blast
  have dres: "distinct (keys res)" using res(2) pr(2) dk by simp
  have "vals res = map (\<lambda>q. rank_of pr q / real_of_int n) (keys pr)"
    using vals_as_rank_of[OF dres] res(2,3) by simp
  then have "sum_list (vals res) = (\<Sum>q\<leftarrow>keys pr. rank_of pr q) / real_of_int n"
    by (simp add: divide_inverse sum_list_mult_const)
  also have "(\<Sum>q\<leftarrow>keys pr. rank_of pr q) = sum_list (vals pr)"
    using vals_as_rank_of[of pr] pr(2) dk by simp
  finally have sum: "sum_list (vals res) = real (nat (n - 1)) / real_of_int n"
    using pr(3) s0 by simp
  have run: "sample_pagerank corpus d n rnd = Inr res"
    using np(2) pr(1) res(1) by (simp add: sample_pagerank_def)
  have zero: "res = ?zero" if "n \<le> 1"
  proof (rule dict_eqI)
    from that have "nat (n - 1) = 0" by simp
    with pr(1) have p0: "pr = ?zero" by simp
    show "keys res = keys ?zero" using res(2) pr(2) kz by simp
    show "distinct (keys res)" by fact
    show "map_of res = map_of ?zero"
    proof
      fix q
      show "map_of res q = map_of ?zero q"
      proof (cases "q \<in> set (keys corpus)")
        case True
        then have "q \<in> set (keys res)" using res(2) pr(2) by simp
        from map_of_key[OF this] obtain v where v: "map_of res q = Some v" by blast
        then have "v = rank_of res q" by (simp add: rank_of_def)
        also have "\<dots> = 0" using res(3) p0 True by (simp add: rank_of_const_dict keys_const_dict)
        finally show ?thesis using v True by (simp add: map_of_const_dict)
      next
        case False
        then have "q \<notin> set (keys res)" using res(2) pr(2) by simp
        from map_of_not_key[OF this] False show ?thesis by (simp add: map_of_const_dict)
      qed
    qed
  qed
  from run res(2) pr(2) sum zero show ?thesis by simp
qed

lemma sample_pagerank_zero:
  assumes "valid_corpus corpus" and "no_dangling_links corpus" and "corpus \<noteq> []"
    and "0 \<le> rnd 0" and "rnd 0 < 1"
  shows "sample_pagerank corpus d 0 rnd = Inl ZeroDivisionError"
proof -
  have ne: "keys corpus \<noteq> []" using assms(3) by (simp add: keys_def)
  let ?zero = "map (\<lambda>key. (key, 0::real)) (keys corpus)"
  obtain np where np: "np \<in> set (keys corpus)" "choice (keys corpus) (rnd 0) = Inr np"
    using choice_ok[OF ne assms(4,5)] by blast
  have "divide_all (keys ?zero) 0 ?zero = Inl ZeroDivisionError"
    using ne by (intro divide_all_zero) (auto simp: keys_const_dict)
  with np(2) show ?thesis by (simp add: sample_pagerank_def)
qed

lemma sample_pagerank_empty: "sample_pagerank [] d n rnd = Inl IndexError"
  by (simp add: sample_pagerank_def keys_def choice_def)

lemma next_draw_ok:
  assumes "valid_corpus corpus" and "no_dangling_links corpus" and "page \<in> set (keys corpus)"
  shows "\<exists>np \<in> set (keys corpus). next_draw corpus d u page = Inr np"
proof -
  obtain links where l: "dict_get corpus page = Inr links"
    using assms(3) map_of_key[of page corpus] by (auto simp: dict_get_def)
  have "links \<in> set (vals corpus)"
    using corpus_lookup[OF assms(1) l] by (force simp: vals_def)
  then have sub: "set links \<subseteq> set (keys corpus)"
    using assms(2) by (simp add: no_dangling_links_def)
  let ?model = "map (\<lambda>q. (q, transition_prob corpus links d q)) (keys corpus)"
  have tm: "transition_model corpus page d = Inr ?model"
    by (rule transition_model_eq[OF assms(1) l sub])
  have ne: "keys corpus \<noteq> []" using assms(3) by auto
  have "0 < sum_list (vals ?model)"
    using transition_model_total[OF assms(1) l sub, of d] by (simp add: vals_const_dict)
  then obtain np where "np \<in> set (keys corpus)"
      "choices (keys ?model) (vals ?model) u = Inr np"
    using choices_ok[of "vals ?model" "keys ?model" u] ne
    by (auto simp: keys_const_dict vals_const_dict)
  with tm show ?thesis by (auto simp: next_draw_def)
qed

lemma sample_loop_step:
  "sample_loop corpus d rnd t (Suc k) page_rank next_page =
     (case dict_get page_rank next_page of
        Inl e \<Rightarrow> Inl e
      | Inr c \<Rightarrow>
          (case next_draw corpus d (rnd t) next_page of
             Inl e \<Rightarrow> Inl e
           | Inr next_page' \<Rightarrow>
               sample_loop corpus d rnd (Suc t) k (dict_set page_rank next_page (c + 1))
                 next_page'))"
  by (simp add: next_draw_def split: sum.splits)

lemma sample_loop_counts:
  assumes "valid_corpus corpus" and "no_dangling_links corpus"
    and "keys page_rank = keys corpus" and "next_page \<in> set (keys corpus)"
  shows "\<exists>page_rank'. sample_loop corpus d rnd t k page_rank next_page = Inr page_rank' \<and>
           keys page_rank' = keys corpus \<and>
           length (visited corpus d rnd t k next_page) = k \<and>
           (\<forall>q. rank_of page_rank' q =
              rank_of page_rank q + real (count_list (visited corpus d rnd t k next_page) q))"
  using assms(3,4)
proof (induction k arbitrary: t page_rank next_page)
  case 0
  then show ?case by simp
next
  case (Suc k)
  obtain np where np: "np \<in> set (keys corpus)" "next_draw corpus d (rnd t) next_page = Inr np"
    using next_draw_ok[OF assms(1,2) Suc.prems(2)] by blast
  let ?c = "rank_of page_rank next_page"
  let ?pr = "dict_set page_rank next_page (?c + 1)"
  have mem: "next_page \<in> set (keys page_rank)" using Suc.prems by simp
  have kpr: "keys ?pr = keys corpus"
    using keys_dict_set_mem[OF mem] Suc.prems(1) by simp
  from Suc.IH[OF kpr np(1), of "Suc t"] obtain res where
    res: "sample_loop corpus d rnd (Suc t) k ?pr np = Inr res" "keys res = keys corpus"
         "length (visited corpus d rnd (Suc t) k np) = k"
         "\<forall>q. rank_of res q = rank_of ?pr q + real (count_list (visited corpus d rnd (Suc t) k np) q)"
    by blast
  have run: "sample_loop corpus d rnd t (Suc k) page_rank next_page = Inr res"
    unfolding sample_loop_step using res(1) np(2) dict_get_rank_of[OF mem] by simp
  have vis: "visited corpus d rnd t (Suc k) next_page =
      next_page # visited corpus d rnd (Suc t) k np"
    using np(2) by simp
  have "rank_of res q = rank_of page_rank q +
      real (count_list (visited corpus d rnd t (Suc k) next_page) q)" for q
    unfolding vis using res(4) by (simp add: rank_of_dict_set)
  with run res(2,3) vis show ?case by simp
qed

lemma sample_pagerank_counts:
  assumes "valid_corpus corpus" and "no_dangling_links corpus" and "corpus \<noteq> []"
    and "n \<noteq> 0" and "0 \<le> rnd 0" and "rnd 0 < 1"
  shows "\<exists>page_rank first.
           sample_pagerank corpus d n rnd = Inr page_rank \<and>
           choice (keys corpus) (rnd 0) = Inr first \<and>
           keys page_rank = keys corpus \<and>
           length (visited corpus d rnd 1 (nat (n - 1)) first) = nat (n - 1) \<and>
           (\<forall>q \<in> set (keys corpus). dict_get page_rank q = Inr
              (real (count_list (visited corpus d rnd 1 (nat (n - 1)) first) q) /
               real_of_int n))"
proof -
  have dk: "distinct (keys corpus)" using assms(1) by (simp add: valid_corpus_def)
  have ne: "keys corpus \<noteq> []" using assms(3) by (simp add: keys_def)
  let ?zero = "map (\<lambda>key. (key, 0::real)) (keys corpus)"
  obtain np where np: "np \<in> set (keys corpus)" "choice (keys corpus) (rnd 0) = Inr np"
    using choice_ok[OF ne assms(5,6)] by blast
  let ?vis = "visited corpus d rnd 1 (nat (n - 1)) np"
  have kz: "keys ?zero = keys corpus" by (simp add: keys_const_dict)
  from sample_loop_counts[OF assms(1,2) kz np(1), of d rnd 1 "nat (n - 1)"] obtain pr where
    pr: "sample_loop corpus d rnd 1 (nat (n - 1)) ?zero np = Inr pr" "keys pr = keys corpus"
        "length ?vis = nat (n - 1)"
        "\<forall>q. rank_of pr q = rank_of ?zero q + real (count_list ?vis q)"
    by blast
  have "set (keys pr) \<subseteq> set (keys pr)" "distinct (keys pr)" using pr(2) dk by auto
  from divide_all_ok[OF assms(4) this] obtain res where
    res: "divide_all (keys pr) n pr = Inr res" "keys res = keys pr"
         "\<forall>q. rank_of res q =
            (if q \<in> set (keys pr) then rank_of pr q / real_of_int n else rank_of pr q)"
    by blast
  have run: "sample_pagerank corpus d n rnd = Inr res"
    using np(2) pr(1) res(1) by (simp add: sample_pagerank_def)
  have "dict_get res q = Inr (real (count_list ?vis q) / real_of_int n)"
    if q: "q \<in> set (keys corpus)" for q
  proof -
    have "q \<in> set (keys res)" using q res(2) pr(2) by simp
    then have "dict_get res q = Inr (rank_of res q)" by (rule dict_get_rank_of)
    also have "rank_of res q = rank_of pr q / real_of_int n" using res(3) q pr(2) by simp
    also have "rank_of pr q = real (count_list ?vis q)"
      using pr(4) q by (simp add: rank_of_const_dict)
    finally show ?thesis .
  qed
  then have "\<forall>q \<in> set (keys corpus). dict_get res q =
      Inr (real (count_list ?vis q) / real_of_int n)"
    by blast
  with run np(2) res(2) pr(2,3) show ?thesis
    by (intro exI[of _ res] exI[of _ np]) simp
qed

lemma visited_nonempty: "visited corpus d rnd t (Suc k) page \<noteq> []"
  by simp

lemma butlast_visited:
  assumes "valid_corpus corpus" and "no_dangling_links corpus" and "page \<in> set (keys corpus)"
  shows "butlast (visited corpus d rnd t (Suc k) page) = visited corpus d rnd t k page"
  using assms(3)
proof (induction k arbitrary: t page)
  case 0
  obtain np where "next_draw corpus d (rnd t) page = Inr np"
    using next_draw_ok[OF assms(1,2) "0.prems"] by blast
  then show ?case by simp
next
  case (Suc k)
  obtain np where np: "np \<in> set (keys corpus)" "next_draw corpus d (rnd t) page = Inr np"
    using next_draw_ok[OF assms(1,2) Suc.prems] by blast
  have "visited corpus d rnd t (Suc (Suc k)) page =
      page # visited corpus d rnd (Suc t) (Suc k) np"
    using np(2) by simp
  then have "butlast (visited corpus d rnd t (Suc (Suc k)) page) =
      page # butlast (visited corpus d rnd (Suc t) (Suc k) np)"
    using visited_nonempty[of corpus d rnd "Suc t" k np] by simp
  also have "\<dots> = page # visited corpus d rnd (Suc t) k np"
    using Suc.IH[OF np(1)] by simp
  also have "\<dots> = visited corpus d rnd t (Suc k) page"
    using np(2) by simp
  finally show ?case .
qed

lemma fixed_source_range: "\<forall>t. 0 \<le> fixed_source t \<and> fixed_source t < 1"
  by (simp add: fixed_source_def)

lemma two_cycle_first_draw: "choice (keys two_cycle) (fixed_source 0) = Inr ''2.html''"
  by (simp add: two_cycle_def keys_def choice_def fixed_source_def)

lemma two_cycle_two_samples:
  "sample_pagerank two_cycle (85 / 100) 2 fixed_source =
     Inr [(''1.html'', 0), (''2.html'', 1 / 2)]"
  by (simp add: sample_pagerank_def two_cycle_def keys_def vals_def choice_def
      transition_model_def dict_get_def choices_def bisect.simps fixed_source_def)

section \<open>The iterative estimator: what one sweep computes\<close>

lemma corpus_entry:
  assumes "valid_corpus corpus" and "(q, links) \<in> set corpus"
  shows "dict_get corpus q = Inr links" and "q \<in> set (keys corpus)" and "corpus \<noteq> []"
    and "distinct links"
proof -
  have "distinct (map fst corpus)" using assms(1) by (simp add: valid_corpus_def keys_def)
  from map_of_is_SomeI[OF this assms(2)] show "dict_get corpus q = Inr links"
    by (simp add: dict_get_def)
  show "q \<in> set (keys corpus)" using assms(2) by (force simp: keys_def)
  show "corpus \<noteq> []" using assms(2) by auto
  have "links \<in> set (vals corpus)" using assms(2) by (force simp: vals_def)
  then show "distinct links" using assms(1) by (simp add: valid_corpus_def)
qed

lemma sum_links_loop_eq:
  assumes "valid_corpus corpus" and "set (keys corpus) \<subseteq> set (keys page_rank)"
    and "set es \<subseteq> set corpus"
  shows "sum_links_loop corpus (length corpus) page_rank p (map fst es) acc =
           Inr (acc + (\<Sum>e\<leftarrow>es. link_weight (length corpus) p e * rank_of page_rank (fst e)))"
  using assms(3)
proof (induction es arbitrary: acc)
  case Nil
  then show ?case by simp
next
  case (Cons e es)
  obtain q links where e: "e = (q, links)" by (cases e)
  with Cons.prems have mem: "(q, links) \<in> set corpus" by simp
  note ce = corpus_entry[OF assms(1) mem]
  have qk: "q \<in> set (keys page_rank)" using ce(2) assms(2) by auto
  have N: "length corpus \<noteq> 0" using ce(3) by simp
  have rest: "set es \<subseteq> set corpus" using Cons.prems by simp
  let ?w = "link_weight (length corpus) p (q, links) * rank_of page_rank q"
  have step: "sum_links_loop corpus (length corpus) page_rank p (q # map fst es) acc =
      sum_links_loop corpus (length corpus) page_rank p (map fst es) (acc + ?w)"
    using ce(1) dict_get_rank_of[OF qk] N by (simp add: link_weight_def)
  show ?case
    using step e Cons.IH[OF rest, of "acc + ?w"] by (simp add: add.assoc)
qed

lemma sum_links_loop_corpus:
  assumes "valid_corpus corpus" and "set (keys corpus) \<subseteq> set (keys page_rank)"
  shows "sum_links_loop corpus (length corpus) page_rank p (keys corpus) 0 =
           Inr (link_sum corpus (rank_of page_rank) p)"
  using sum_links_loop_eq[OF assms, of corpus p 0] by (simp add: keys_def link_sum_def)

lemma compute_ranks_eq:
  assumes "valid_corpus corpus" and "set (keys corpus) \<subseteq> set (keys page_rank)"
    and "ps = [] \<or> corpus \<noteq> []"
  shows "compute_ranks corpus d (length corpus) page_rank ps calc =
           Inr (fold (\<lambda>p c. dict_set c p (new_rank corpus d (rank_of page_rank) p)) ps calc)"
  using assms(3)
proof (induction ps arbitrary: calc)
  case Nil
  then show ?case by simp
next
  case (Cons p ps)
  then have ne: "corpus \<noteq> []" by simp
  with Cons.IH show ?case
    by (simp add: sum_links_loop_corpus[OF assms(1,2)] new_rank_def)
qed

lemma map_of_fold_set:
  "map_of (fold (\<lambda>p c. dict_set c p (f p)) ps acc) q =
     (if q \<in> set ps then Some (f q) else map_of acc q)"
  by (induction ps arbitrary: acc) (auto simp: map_of_dict_set)

lemma keys_fold_set_mem:
  "set ps \<subseteq> set (keys acc) \<Longrightarrow> keys (fold (\<lambda>p c. dict_set c p (f p)) ps acc) = keys acc"
  by (induction ps arbitrary: acc) (auto simp: keys_dict_set_mem)

lemma fold_set_new:
  "distinct ps \<Longrightarrow> set ps \<inter> set (keys acc) = {} \<Longrightarrow>
   fold (\<lambda>p c. dict_set c p (f p)) ps acc = acc @ map (\<lambda>p. (p, f p)) ps"
proof (induction ps arbitrary: acc)
  case Nil
  then show ?case by simp
next
  case (Cons i ps)
  have new: "i \<notin> set (keys acc)" using Cons.prems by auto
  have ds: "dict_set acc i (f i) = acc @ [(i, f i)]"
    using new by (induction acc) (auto simp: keys_def)
  have "set ps \<inter> set (keys (acc @ [(i, f i)])) = {}"
    using Cons.prems by (auto simp: keys_def)
  with Cons.IH[of "acc @ [(i, f i)]"] Cons.prems ds show ?case by simp
qed

lemma fold_set_all:
  assumes "distinct ps" and "acc = [] \<or> keys acc = ps"
  shows "fold (\<lambda>p c. dict_set c p (f p)) ps acc = map (\<lambda>p. (p, f p)) ps"
proof (cases "acc = []")
  case True
  with fold_set_new[OF assms(1), of "[]" f] show ?thesis by (simp add: keys_def)
next
  case False
  with assms(2) have k: "keys acc = ps" by simp
  show ?thesis
  proof (rule dict_eqI)
    show "keys (fold (\<lambda>p c. dict_set c p (f p)) ps acc) = keys (map (\<lambda>p. (p, f p)) ps)"
      using keys_fold_set_mem[of ps acc f] k by (simp add: keys_const_dict)
    then show "distinct (keys (fold (\<lambda>p c. dict_set c p (f p)) ps acc))"
      using assms(1) by (simp add: keys_const_dict)
    show "map_of (fold (\<lambda>p c. dict_set c p (f p)) ps acc) = map_of (map (\<lambda>p. (p, f p)) ps)"
      using k by (auto simp: fun_eq_iff map_of_fold_set map_of_const_dict map_of_not_key)
  qed
qed

lemma adopt_ranks_eq:
  assumes "distinct ps" and "set ps \<subseteq> set (keys page_rank)" and "set ps \<subseteq> set (keys calc)"
  shows "adopt_ranks ps calc page_rank c =
           Inr (fold (\<lambda>p r. dict_set r p (rank_of calc p)) ps page_rank,
                c \<or> (\<exists>p \<in> set ps. \<bar>rank_of page_rank p - rank_of calc p\<bar> > 1 / 1000))"
  using assms
proof (induction ps arbitrary: page_rank c)
  case Nil
  then show ?case by simp
next
  case (Cons p ps)
  let ?pr = "dict_set page_rank p (rank_of calc p)"
  have m1: "p \<in> set (keys page_rank)" and m2: "p \<in> set (keys calc)" using Cons.prems by auto
  have k: "keys ?pr = keys page_rank" using m1 by (rule keys_dict_set_mem)
  have "distinct ps" "set ps \<subseteq> set (keys ?pr)" "set ps \<subseteq> set (keys calc)"
    using Cons.prems k by auto
  note IH = Cons.IH[OF this]
  have same: "rank_of ?pr q = rank_of page_rank q" if "q \<in> set ps" for q
    using that Cons.prems(1) by (auto simp: rank_of_dict_set)
  show ?case
    using dict_get_rank_of[OF m1] dict_get_rank_of[OF m2] IH same by auto
qed

lemma adopt_all:
  assumes "distinct (keys page_rank)" and "keys calc = keys page_rank"
  shows "fold (\<lambda>p r. dict_set r p (rank_of calc p)) (keys page_rank) page_rank = calc"
proof -
  have "fold (\<lambda>p r. dict_set r p (rank_of calc p)) (keys page_rank) page_rank =
        map (\<lambda>p. (p, rank_of calc p)) (keys page_rank)"
    using assms(1) by (intro fold_set_all) auto
  also have "\<dots> = calc"
  proof (rule dict_eqI)
    show "keys (map (\<lambda>p. (p, rank_of calc p)) (keys page_rank)) = keys calc"
      using assms(2) by (simp add: keys_const_dict)
    show "distinct (keys (map (\<lambda>p. (p, rank_of calc p)) (keys page_rank)))"
      using assms(1) by (simp add: keys_const_dict)
    show "map_of (map (\<lambda>p. (p, rank_of calc p)) (keys page_rank)) = map_of calc"
    proof
      fix q
      show "map_of (map (\<lambda>p. (p, rank_of calc p)) (keys page_rank)) q = map_of calc q"
      proof (cases "q \<in> set (keys calc)")
        case True
        with map_of_key[OF True] assms(2) show ?thesis
          by (auto simp: map_of_const_dict rank_of_def)
      next
        case False
        with assms(2) show ?thesis by (simp add: map_of_const_dict map_of_not_key)
      qed
    qed
  qed
  finally show ?thesis .
qed

lemma keys_next_ranks: "keys (next_ranks corpus d page_rank) = keys corpus"
  by (simp add: next_ranks_def keys_const_dict)

lemma sweep_eq:
  assumes "valid_corpus corpus" and "keys page_rank = keys corpus"
    and "calc = [] \<or> keys calc = keys corpus"
  shows "sweep corpus d (length corpus) page_rank calc =
           Inr (next_ranks corpus d page_rank, next_ranks corpus d page_rank,
                \<not> converged page_rank (next_ranks corpus d page_rank))"
proof -
  let ?new = "next_ranks corpus d page_rank"
  have dk: "distinct (keys corpus)" using assms(1) by (simp add: valid_corpus_def)
  have e: "keys page_rank = [] \<or> corpus \<noteq> []" using assms(2) by (auto simp: keys_def)
  have "compute_ranks corpus d (length corpus) page_rank (keys page_rank) calc =
          Inr (fold (\<lambda>p c. dict_set c p (new_rank corpus d (rank_of page_rank) p))
                 (keys page_rank) calc)"
    using assms(1,2) e by (intro compute_ranks_eq) auto
  also have "fold (\<lambda>p c. dict_set c p (new_rank corpus d (rank_of page_rank) p))
                 (keys page_rank) calc = ?new"
    unfolding next_ranks_def assms(2) using assms(3) dk by (intro fold_set_all) auto
  finally have c: "compute_ranks corpus d (length corpus) page_rank (keys page_rank) calc =
      Inr ?new" .
  have kn: "keys ?new = keys page_rank" using assms(2) by (simp add: keys_next_ranks)
  have "adopt_ranks (keys page_rank) ?new page_rank False =
      Inr (fold (\<lambda>p r. dict_set r p (rank_of ?new p)) (keys page_rank) page_rank,
           False \<or> (\<exists>p \<in> set (keys page_rank).
              \<bar>rank_of page_rank p - rank_of ?new p\<bar> > 1 / 1000))"
    using dk assms(2) kn by (intro adopt_ranks_eq) auto
  also have "fold (\<lambda>p r. dict_set r p (rank_of ?new p)) (keys page_rank) page_rank = ?new"
    using dk assms(2) kn by (intro adopt_all) auto
  finally have a: "adopt_ranks (keys page_rank) ?new page_rank False =
      Inr (?new, \<not> converged page_rank ?new)"
    by (auto simp: converged_def not_le)
  show ?thesis using c a by (simp add: sweep_def)
qed

section \<open>The iterative estimator: the loop and the sequence of sweeps\<close>

lemma keys_funpow_next:
  "keys page_rank = keys corpus \<Longrightarrow> keys ((next_ranks corpus d ^^ k) page_rank) = keys corpus"
  by (cases k) (simp_all add: keys_next_ranks)

lemma iterate_loop_SomeD:
  assumes "iterate_loop corpus d N page_rank calc = Some res"
    and "valid_corpus corpus" and "N = length corpus" and "keys page_rank = keys corpus"
    and "calc = [] \<or> keys calc = keys corpus"
  shows "\<exists>k. res = Inr ((next_ranks corpus d ^^ Suc k) page_rank) \<and>
           converged ((next_ranks corpus d ^^ k) page_rank)
             ((next_ranks corpus d ^^ Suc k) page_rank) \<and>
           (\<forall>j<k. \<not> converged ((next_ranks corpus d ^^ j) page_rank)
                     ((next_ranks corpus d ^^ Suc j) page_rank))"
proof -
  define P where "P = (\<lambda>corpus d N (page_rank :: 'a dict) (calc :: 'a dict)
      (res :: py_error + 'a dict).
    valid_corpus corpus \<longrightarrow> N = length corpus \<longrightarrow> keys page_rank = keys corpus \<longrightarrow>
    (calc = [] \<or> keys calc = keys corpus) \<longrightarrow>
    (\<exists>k. res = Inr ((next_ranks corpus d ^^ Suc k) page_rank) \<and>
           converged ((next_ranks corpus d ^^ k) page_rank)
             ((next_ranks corpus d ^^ Suc k) page_rank) \<and>
           (\<forall>j<k. \<not> converged ((next_ranks corpus d ^^ j) page_rank)
                     ((next_ranks corpus d ^^ Suc j) page_rank))))"
  have "P corpus d N page_rank calc res"
  proof (rule iterate_loop.raw_induct[where P = P, OF _ assms(1)])
    fix loop :: "'a corpus \<Rightarrow> real \<Rightarrow> nat \<Rightarrow> 'a dict \<Rightarrow> 'a dict \<Rightarrow> (py_error + 'a dict) option"
    fix corpus d N page_rank calc res
    assume IH: "\<And>corpus d N page_rank calc res.
      loop corpus d N page_rank calc = Some res \<Longrightarrow> P corpus d N page_rank calc res"
    assume body: "(case sweep corpus d N page_rank calc of
        Inl e \<Rightarrow> Some (Inl e)
      | Inr (page_rank', calculated_pr', condition) \<Rightarrow>
          if condition then loop corpus d N page_rank' calculated_pr'
          else Some (Inr page_rank')) = Some res"
    show "P corpus d N page_rank calc res"
      unfolding P_def
    proof (intro impI)
      assume v: "valid_corpus corpus" and N: "N = length corpus"
        and kp: "keys page_rank = keys corpus" and kc: "calc = [] \<or> keys calc = keys corpus"
      let ?next = "next_ranks corpus d"
      let ?new = "?next page_rank"
      have sw: "sweep corpus d N page_rank calc =
          Inr (?new, ?new, \<not> converged page_rank ?new)"
        using sweep_eq[OF v kp kc, of d] N by simp
      show "\<exists>k. res = Inr ((?next ^^ Suc k) page_rank) \<and>
           converged ((?next ^^ k) page_rank) ((?next ^^ Suc k) page_rank) \<and>
           (\<forall>j<k. \<not> converged ((?next ^^ j) page_rank) ((?next ^^ Suc j) page_rank))"
      proof (cases "converged page_rank ?new")
        case True
        with body sw have "res = Inr ?new" by simp
        with True show ?thesis by (intro exI[of _ 0]) simp
      next
        case False
        with body sw have run: "loop corpus d N ?new ?new = Some res" by simp
        have kn: "keys ?new = keys corpus" by (rule keys_next_ranks)
        from IH[OF run] v N kn obtain k where
          k: "res = Inr ((?next ^^ Suc k) ?new)"
             "converged ((?next ^^ k) ?new) ((?next ^^ Suc k) ?new)"
             "\<forall>j<k. \<not> converged ((?next ^^ j) ?new) ((?next ^^ Suc j) ?new)"
          unfolding P_def by blast
        have shift: "(?next ^^ j) ?new = (?next ^^ Suc j) page_rank" for j
          by (simp add: funpow_swap1)
        have "\<not> converged ((?next ^^ j) page_rank) ((?next ^^ Suc j) page_rank)"
          if "j < Suc k" for j
        proof (cases j)
          case 0
          with False show ?thesis by simp
        next
          case (Suc i)
          with that k(3) have "\<not> converged ((?next ^^ i) ?new) ((?next ^^ Suc i) ?new)"
            by simp
          then show ?thesis unfolding shift Suc .
        qed
        moreover have "res = Inr ((?next ^^ Suc (Suc k)) page_rank)"
          using k(1) unfolding shift .
        moreover have
          "converged ((?next ^^ Suc k) page_rank) ((?next ^^ Suc (Suc k)) page_rank)"
          using k(2) unfolding shift .
        ultimately show ?thesis by blast
      qed
    qed
  qed
  with assms(2-) show ?thesis unfolding P_def by blast
qed

lemma iterate_loop_SomeI:
  assumes "valid_corpus corpus" and "keys page_rank = keys corpus"
    and "calc = [] \<or> keys calc = keys corpus"
    and "converged ((next_ranks corpus d ^^ k) page_rank)
           ((next_ranks corpus d ^^ Suc k) page_rank)"
    and "\<forall>j<k. \<not> converged ((next_ranks corpus d ^^ j) page_rank)
                   ((next_ranks corpus d ^^ Suc j) page_rank)"
  shows "iterate_loop corpus d (length corpus) page_rank calc =
           Some (Inr ((next_ranks corpus d ^^ Suc k) page_rank))"
  using assms(2-)
proof (induction k arbitrary: page_rank calc)
  case 0
  let ?new = "next_ranks corpus d page_rank"
  have "sweep corpus d (length corpus) page_rank calc =
      Inr (?new, ?new, \<not> converged page_rank ?new)"
    by (rule sweep_eq[OF assms(1) "0.prems"(1,2)])
  with "0.prems"(3) show ?case by (subst iterate_loop.simps) simp
next
  case (Suc k)
  let ?next = "next_ranks corpus d"
  let ?new = "?next page_rank"
  have sw: "sweep corpus d (length corpus) page_rank calc =
      Inr (?new, ?new, \<not> converged page_rank ?new)"
    by (rule sweep_eq[OF assms(1) Suc.prems(1,2)])
  have nc: "\<not> converged page_rank ?new" using Suc.prems(4) by force
  have shift: "(?next ^^ j) ?new = (?next ^^ Suc j) page_rank" for j
    by (simp add: funpow_swap1)
  have kn: "keys ?new = keys corpus" by (rule keys_next_ranks)
  have c: "converged ((?next ^^ k) ?new) ((?next ^^ Suc k) ?new)"
    unfolding shift using Suc.prems(3) .
  have n: "\<forall>j<k. \<not> converged ((?next ^^ j) ?new) ((?next ^^ Suc j) ?new)"
    unfolding shift using Suc.prems(4) by auto
  have "iterate_loop corpus d (length corpus) ?new ?new = Some (Inr ((?next ^^ Suc k) ?new))"
    using kn c n by (intro Suc.IH) auto
  then have "iterate_loop corpus d (length corpus) ?new ?new =
      Some (Inr ((?next ^^ Suc (Suc k)) page_rank))"
    unfolding shift .
  with sw nc show ?case by (subst iterate_loop.simps) simp
qed

lemma keys_initial_ranks: "keys (initial_ranks corpus) = keys corpus"
  by (simp add: initial_ranks_def keys_const_dict)

lemma keys_ranks_after: "keys (ranks_after corpus d k) = keys corpus"
  unfolding ranks_after_def by (rule keys_funpow_next) (rule keys_initial_ranks)

lemma iterate_pagerank_loop:
  "iterate_pagerank corpus d = iterate_loop corpus d (length corpus) (initial_ranks corpus) []"
  by (simp add: iterate_pagerank_def initial_ranks_def Let_def)

lemma iterate_pagerank_SomeD:
  assumes "valid_corpus corpus" and "iterate_pagerank corpus d = Some res"
  shows "\<exists>k. res = Inr (ranks_after corpus d (Suc k)) \<and>
           converged (ranks_after corpus d k) (ranks_after corpus d (Suc k)) \<and>
           (\<forall>j<k. \<not> converged (ranks_after corpus d j) (ranks_after corpus d (Suc j)))"
  unfolding ranks_after_def
  using assms(2) unfolding iterate_pagerank_loop
  by (rule iterate_loop_SomeD) (simp_all add: assms(1) keys_initial_ranks)

lemma iterate_pagerank_SomeI:
  assumes "valid_corpus corpus"
    and "converged (ranks_after corpus d k) (ranks_after corpus d (Suc k))"
    and "\<forall>j<k. \<not> converged (ranks_after corpus d j) (ranks_after corpus d (Suc j))"
  shows "iterate_pagerank corpus d = Some (Inr (ranks_after corpus d (Suc k)))"
  unfolding iterate_pagerank_loop
  using assms(2,3) unfolding ranks_after_def
  by (intro iterate_loop_SomeI[OF assms(1)]) (simp_all add: keys_initial_ranks)

lemma iterate_pagerank_terminates:
  assumes "valid_corpus corpus"
    and "converged (ranks_after corpus d k) (ranks_after corpus d (Suc k))"
  shows "\<exists>k. iterate_pagerank corpus d = Some (Inr (ranks_after corpus d (Suc k))) \<and>
           converged (ranks_after corpus d k) (ranks_after corpus d (Suc k)) \<and>
           (\<forall>j<k. \<not> converged (ranks_after corpus d j) (ranks_after corpus d (Suc j)))"
proof -
  let ?P = "\<lambda>k. converged (ranks_after corpus d k) (ranks_after corpus d (Suc k))"
  from assms(2) have "\<exists>k. ?P k" by blast
  then obtain m where m: "?P m" "\<forall>j<m. \<not> ?P j"
    unfolding exists_least_iff[of ?P] by blast
  from iterate_pagerank_SomeI[OF assms(1) m] m show ?thesis by blast
qed

lemma iterate_pagerank_diverges:
  assumes "valid_corpus corpus"
    and "\<forall>k. \<not> converged (ranks_after corpus d k) (ranks_after corpus d (Suc k))"
  shows "iterate_pagerank corpus d = None"
proof (cases "iterate_pagerank corpus d")
  case None
  then show ?thesis .
next
  case (Some res)
  from iterate_pagerank_SomeD[OF assms(1) Some] assms(2) show ?thesis by blast
qed

section \<open>The iterative estimator: a sweep contracts, so the loop ends when the damping factor is below 1\<close>

lemma link_weight_nonneg: "0 \<le> link_weight N p e"
  by (simp add: link_weight_def)

lemma sum_list_swap:
  "(\<Sum>p\<leftarrow>ps. \<Sum>e\<leftarrow>es. (F p e :: real)) = (\<Sum>e\<leftarrow>es. \<Sum>p\<leftarrow>ps. F p e)"
  by (induction ps) (simp_all add: sum_list_addf)

lemma filter_links_le:
  assumes "distinct ks"
  shows "length (filter (\<lambda>p. p \<noteq> q \<and> p \<in> set links) ks) \<le> length links"
proof -
  have "length (filter (\<lambda>p. p \<noteq> q \<and> p \<in> set links) ks) =
        card ({p. p \<noteq> q \<and> p \<in> set links} \<inter> set ks)"
    using assms by (rule distinct_length_filter)
  also have "\<dots> \<le> card (set links)" by (intro card_mono) auto
  also have "\<dots> \<le> length links" by (rule card_length)
  finally show ?thesis .
qed

lemma link_weight_total_le:
  assumes "distinct ks" and "length ks = N"
  shows "(\<Sum>p\<leftarrow>ks. link_weight N p e) \<le> 1"
proof (cases "snd e = []")
  case True
  then have "(\<Sum>p\<leftarrow>ks. link_weight N p e) = (\<Sum>p\<leftarrow>ks. 1 / real N)"
    by (simp add: link_weight_def)
  also have "\<dots> \<le> 1" using assms(2) by (simp add: sum_list_triv)
  finally show ?thesis .
next
  case False
  then have pos: "0 < real (length (snd e))" by simp
  have "(\<Sum>p\<leftarrow>ks. link_weight N p e) =
        (\<Sum>p\<leftarrow>ks. if p \<noteq> fst e \<and> p \<in> set (snd e) then 1 / real (length (snd e)) else 0)"
    using False by (simp add: link_weight_def)
  also have "\<dots> = real (length (filter (\<lambda>p. p \<noteq> fst e \<and> p \<in> set (snd e)) ks)) *
                    (1 / real (length (snd e)))"
    by (rule sum_list_indicator)
  also have "\<dots> \<le> real (length (snd e)) * (1 / real (length (snd e)))"
    using filter_links_le[OF assms(1), of "fst e" "snd e"]
    by (intro mult_right_mono) auto
  also have "\<dots> = 1" using pos by simp
  finally show ?thesis .
qed

lemma link_sum_diff:
  "link_sum corpus f p - link_sum corpus g p = link_sum corpus (\<lambda>q. f q - g q) p"
  by (simp add: link_sum_def sum_list_subtractf[symmetric] algebra_simps)

lemma abs_link_sum:
  "\<bar>link_sum corpus h p\<bar> \<le> (\<Sum>e\<leftarrow>corpus. link_weight (length corpus) p e * \<bar>h (fst e)\<bar>)"
proof -
  have "\<bar>link_sum corpus h p\<bar> \<le>
        sum_list (map abs (map (\<lambda>e. link_weight (length corpus) p e * h (fst e)) corpus))"
    unfolding link_sum_def by (rule sum_list_abs)
  also have "\<dots> = (\<Sum>e\<leftarrow>corpus. link_weight (length corpus) p e * \<bar>h (fst e)\<bar>)"
    by (simp add: comp_def abs_mult link_weight_nonneg)
  finally show ?thesis .
qed

lemma link_sum_contracts:
  assumes "valid_corpus corpus"
  shows "(\<Sum>p\<leftarrow>keys corpus. \<bar>link_sum corpus h p\<bar>) \<le> (\<Sum>q\<leftarrow>keys corpus. \<bar>h q\<bar>)"
proof -
  let ?N = "length corpus"
  have dk: "distinct (keys corpus)" using assms by (simp add: valid_corpus_def)
  have lk: "length (keys corpus) = ?N" by (simp add: keys_def)
  have "(\<Sum>p\<leftarrow>keys corpus. \<bar>link_sum corpus h p\<bar>) \<le>
        (\<Sum>p\<leftarrow>keys corpus. \<Sum>e\<leftarrow>corpus. link_weight ?N p e * \<bar>h (fst e)\<bar>)"
    by (intro sum_list_mono abs_link_sum)
  also have "\<dots> = (\<Sum>e\<leftarrow>corpus. \<Sum>p\<leftarrow>keys corpus. link_weight ?N p e * \<bar>h (fst e)\<bar>)"
    by (rule sum_list_swap)
  also have "\<dots> = (\<Sum>e\<leftarrow>corpus. (\<Sum>p\<leftarrow>keys corpus. link_weight ?N p e) * \<bar>h (fst e)\<bar>)"
    by (simp add: sum_list_mult_const)
  also have "\<dots> \<le> (\<Sum>e\<leftarrow>corpus. 1 * \<bar>h (fst e)\<bar>)"
    by (intro sum_list_mono mult_right_mono link_weight_total_le[OF dk lk]) simp
  also have "\<dots> = (\<Sum>q\<leftarrow>keys corpus. \<bar>h q\<bar>)"
    by (simp add: keys_def comp_def)
  finally show ?thesis .
qed

lemma new_rank_diff:
  "new_rank corpus d f p - new_rank corpus d g p = d * link_sum corpus (\<lambda>q. f q - g q) p"
  by (simp add: new_rank_def link_sum_diff[symmetric] algebra_simps)

lemma rank_of_next_ranks:
  "p \<in> set (keys corpus) \<Longrightarrow>
   rank_of (next_ranks corpus d page_rank) p = new_rank corpus d (rank_of page_rank) p"
  by (simp add: next_ranks_def rank_of_const_dict)

lemma ranks_after_Suc:
  "ranks_after corpus d (Suc k) = next_ranks corpus d (ranks_after corpus d k)"
  by (simp add: ranks_after_def)

text \<open>The total movement of one sweep, summed over the pages.\<close>

lemma movement_contracts:
  assumes "valid_corpus corpus" and "0 \<le> d"
  shows "(\<Sum>p\<leftarrow>keys corpus. \<bar>rank_of (ranks_after corpus d (Suc (Suc k))) p -
                              rank_of (ranks_after corpus d (Suc k)) p\<bar>) \<le>
         d * (\<Sum>p\<leftarrow>keys corpus. \<bar>rank_of (ranks_after corpus d (Suc k)) p -
                                  rank_of (ranks_after corpus d k) p\<bar>)"
proof -
  let ?r = "\<lambda>k. rank_of (ranks_after corpus d k)"
  let ?h = "\<lambda>q. ?r (Suc k) q - ?r k q"
  have "(\<Sum>p\<leftarrow>keys corpus. \<bar>?r (Suc (Suc k)) p - ?r (Suc k) p\<bar>) =
        (\<Sum>p\<leftarrow>keys corpus. d * \<bar>link_sum corpus ?h p\<bar>)"
  proof (intro arg_cong[where f = sum_list] map_cong refl)
    fix p assume p: "p \<in> set (keys corpus)"
    have "?r (Suc (Suc k)) p - ?r (Suc k) p =
          new_rank corpus d (?r (Suc k)) p - new_rank corpus d (?r k) p"
      using p by (simp add: ranks_after_Suc rank_of_next_ranks)
    also have "\<dots> = d * link_sum corpus ?h p" by (rule new_rank_diff)
    finally show "\<bar>?r (Suc (Suc k)) p - ?r (Suc k) p\<bar> = d * \<bar>link_sum corpus ?h p\<bar>"
      using assms(2) by (simp add: abs_mult)
  qed
  also have "\<dots> = d * (\<Sum>p\<leftarrow>keys corpus. \<bar>link_sum corpus ?h p\<bar>)"
    by (rule sum_list_const_mult)
  also have "\<dots> \<le> d * (\<Sum>q\<leftarrow>keys corpus. \<bar>?h q\<bar>)"
    by (intro mult_left_mono link_sum_contracts assms)
  finally show ?thesis .
qed

lemma movement_bound:
  assumes "valid_corpus corpus" and "0 \<le> d"
  shows "(\<Sum>p\<leftarrow>keys corpus. \<bar>rank_of (ranks_after corpus d (Suc k)) p -
                              rank_of (ranks_after corpus d k) p\<bar>) \<le>
         d ^ k * (\<Sum>p\<leftarrow>keys corpus. \<bar>rank_of (ranks_after corpus d (Suc 0)) p -
                                      rank_of (ranks_after corpus d 0) p\<bar>)"
proof (induction k)
  case 0
  show ?case by simp
next
  case (Suc k)
  have "(\<Sum>p\<leftarrow>keys corpus. \<bar>rank_of (ranks_after corpus d (Suc (Suc k))) p -
                              rank_of (ranks_after corpus d (Suc k)) p\<bar>) \<le>
        d * (\<Sum>p\<leftarrow>keys corpus. \<bar>rank_of (ranks_after corpus d (Suc k)) p -
                                  rank_of (ranks_after corpus d k) p\<bar>)"
    by (rule movement_contracts[OF assms])
  also have "\<dots> \<le> d * (d ^ k * (\<Sum>p\<leftarrow>keys corpus. \<bar>rank_of (ranks_after corpus d (Suc 0)) p -
                                      rank_of (ranks_after corpus d 0) p\<bar>))"
    by (intro mult_left_mono Suc.IH assms(2))
  finally show ?case by (simp add: mult.assoc)
qed

lemma eventually_converged:
  assumes "valid_corpus corpus" and "0 \<le> d" and "d < 1"
  shows "\<exists>k. converged (ranks_after corpus d k) (ranks_after corpus d (Suc k))"
proof -
  let ?r = "\<lambda>k. rank_of (ranks_after corpus d k)"
  let ?m = "\<lambda>k. (\<Sum>p\<leftarrow>keys corpus. \<bar>?r (Suc k) p - ?r k p\<bar>)"
  have m0: "0 \<le> ?m 0" by (intro sum_list_nonneg) auto
  have "0 < (1 / 1000) / (?m 0 + 1)" using m0 by simp
  from real_arch_pow_inv[OF this assms(3)] obtain k where
    k: "d ^ k < (1 / 1000) / (?m 0 + 1)" by blast
  have "d ^ k * ?m 0 \<le> d ^ k * (?m 0 + 1)"
    using assms(2) by (intro mult_left_mono) auto
  also have "\<dots> < 1 / 1000"
  proof -
    have "0 < ?m 0 + 1" using m0 by simp
    from pos_less_divide_eq[OF this, of "d ^ k" "1 / 1000"] k show ?thesis by blast
  qed
  finally have small: "?m k \<le> 1 / 1000"
    using movement_bound[OF assms(1,2), of k] by linarith
  have "\<bar>?r k p - ?r (Suc k) p\<bar> \<le> 1 / 1000" if "p \<in> set (keys corpus)" for p
  proof -
    have "\<bar>?r (Suc k) p - ?r k p\<bar> \<in> set (map (\<lambda>p. \<bar>?r (Suc k) p - ?r k p\<bar>) (keys corpus))"
      using that by auto
    then have "\<bar>?r (Suc k) p - ?r k p\<bar> \<le> ?m k"
      by (rule member_le_sum_list) auto
    with small show ?thesis by (simp add: abs_minus_commute)
  qed
  then have "converged (ranks_after corpus d k) (ranks_after corpus d (Suc k))"
    by (simp add: converged_def keys_ranks_after)
  then show ?thesis ..
qed

lemma iterate_pagerank_returns:
  assumes "valid_corpus corpus" and "0 \<le> d" and "d < 1"
  shows "\<exists>k. iterate_pagerank corpus d = Some (Inr (ranks_after corpus d (Suc k))) \<and>
           converged (ranks_after corpus d k) (ranks_after corpus d (Suc k)) \<and>
           (\<forall>j<k. \<not> converged (ranks_after corpus d j) (ranks_after corpus d (Suc j)))"
proof -
  from eventually_converged[OF assms] obtain k where
    "converged (ranks_after corpus d k) (ranks_after corpus d (Suc k))" ..
  then show ?thesis by (rule iterate_pagerank_terminates[OF assms(1)])
qed

section \<open>The iterative estimator: bounds and the total of the ranks\<close>

lemma length_keys: "length (keys d) = length d"
  by (simp add: keys_def)

lemma sum_list_filter_if:
  "(\<Sum>e\<leftarrow>filter P es. (f e :: real)) = (\<Sum>e\<leftarrow>es. if P e then f e else 0)"
  by (induction es) auto

lemma link_sum_code:
  "link_sum corpus r p =
     (\<Sum>(q, links)\<leftarrow>filter (\<lambda>(q, links). p \<noteq> q \<and> p \<in> set links) corpus.
         r q / real (length links)) +
     (\<Sum>(q, links)\<leftarrow>filter (\<lambda>(q, links). links = []) corpus. r q / real (length corpus))"
proof -
  have "link_sum corpus r p =
      (\<Sum>e\<leftarrow>corpus. (if (case e of (q, links) \<Rightarrow> p \<noteq> q \<and> p \<in> set links)
                        then (case e of (q, links) \<Rightarrow> r q / real (length links)) else 0) +
                    (if (case e of (q, links) \<Rightarrow> links = [])
                        then (case e of (q, links) \<Rightarrow> r q / real (length corpus)) else 0))"
    unfolding link_sum_def
    by (intro arg_cong[where f = sum_list] map_cong refl)
      (auto simp: link_weight_def split: prod.splits)
  then show ?thesis by (simp add: sum_list_addf sum_list_filter_if)
qed

lemma link_sum_spec:
  assumes "no_self_links corpus"
  shows "link_sum corpus r p =
     (\<Sum>(q, links)\<leftarrow>filter (\<lambda>(q, links). p \<in> set links) corpus. r q / real (length links)) +
     (\<Sum>(q, links)\<leftarrow>filter (\<lambda>(q, links). links = []) corpus. r q / real (length corpus))"
proof -
  have "filter (\<lambda>(q, links). p \<noteq> q \<and> p \<in> set links) corpus =
        filter (\<lambda>(q, links). p \<in> set links) corpus"
    using assms by (intro filter_cong refl) (auto simp: no_self_links_def)
  then show ?thesis by (simp add: link_sum_code)
qed

lemma new_rank_spec:
  "no_self_links corpus \<Longrightarrow> new_rank corpus d r p = spec_new_rank corpus d r p"
  by (simp add: new_rank_def spec_new_rank_def link_sum_spec)

lemma link_sum_nonneg:
  assumes "\<forall>q \<in> set (keys corpus). 0 \<le> r q"
  shows "0 \<le> link_sum corpus r p"
  unfolding link_sum_def
proof (rule sum_list_nonneg)
  fix x assume "x \<in> set (map (\<lambda>e. link_weight (length corpus) p e * r (fst e)) corpus)"
  then obtain e where e: "e \<in> set corpus" "x = link_weight (length corpus) p e * r (fst e)"
    by auto
  from e(1) have "fst e \<in> set (keys corpus)" by (simp add: keys_def)
  with assms e(2) show "0 \<le> x" by (simp add: link_weight_nonneg)
qed

lemma new_rank_lower:
  assumes "\<forall>q \<in> set (keys corpus). 0 \<le> r q" and "0 \<le> d"
  shows "(1 - d) / real (length corpus) \<le> new_rank corpus d r p"
  using link_sum_nonneg[OF assms(1), of p] assms(2) by (simp add: new_rank_def)

lemma ranks_after_nonneg:
  assumes "0 \<le> d" and "d \<le> 1" and "p \<in> set (keys corpus)"
  shows "0 \<le> rank_of (ranks_after corpus d k) p"
  using assms(3)
proof (induction k arbitrary: p)
  case 0
  then show ?case by (simp add: ranks_after_def initial_ranks_def rank_of_const_dict)
next
  case (Suc k)
  have "0 \<le> (1 - d) / real (length corpus)" using assms(2) by simp
  also have "\<dots> \<le> new_rank corpus d (rank_of (ranks_after corpus d k)) p"
    using Suc.IH assms(1) by (intro new_rank_lower) auto
  finally show ?case using Suc.prems by (simp add: ranks_after_Suc rank_of_next_ranks)
qed

lemma ranks_after_lower:
  assumes "0 \<le> d" and "d \<le> 1" and "p \<in> set (keys corpus)"
  shows "(1 - d) / real (length corpus) \<le> rank_of (ranks_after corpus d (Suc k)) p"
proof -
  have "(1 - d) / real (length corpus) \<le> new_rank corpus d (rank_of (ranks_after corpus d k)) p"
    using ranks_after_nonneg[OF assms(1,2)] assms(1) by (intro new_rank_lower) auto
  then show ?thesis using assms(3) by (simp add: ranks_after_Suc rank_of_next_ranks)
qed

text \<open>The share of the rank of one page that a sweep hands on to the pages of the corpus.\<close>

lemma filter_links_count:
  assumes "distinct ks" and "distinct links" and "set links \<subseteq> set ks"
  shows "length (filter (\<lambda>p. p \<noteq> q \<and> p \<in> set links) ks) =
           (if q \<in> set links then length links - 1 else length links)"
proof -
  have "length (filter (\<lambda>p. p \<noteq> q \<and> p \<in> set links) ks) =
        card ({p. p \<noteq> q \<and> p \<in> set links} \<inter> set ks)"
    using assms(1) by (rule distinct_length_filter)
  also have "{p. p \<noteq> q \<and> p \<in> set links} \<inter> set ks = set links - {q}"
    using assms(3) by auto
  also have "card (set links - {q}) = (if q \<in> set links then card (set links) - 1 else card (set links))"
    by simp
  also have "card (set links) = length links" using assms(2) by (rule distinct_card)
  finally show ?thesis .
qed

lemma link_weight_total:
  assumes "distinct ks" and "length ks = N" and "distinct (snd e)" and "set (snd e) \<subseteq> set ks"
    and "ks \<noteq> []"
  shows "(\<Sum>p\<leftarrow>ks. link_weight N p e) =
           1 - (if fst e \<in> set (snd e) then 1 / real (length (snd e)) else 0)"
proof (cases "snd e = []")
  case True
  then have "(\<Sum>p\<leftarrow>ks. link_weight N p e) = (\<Sum>p\<leftarrow>ks. 1 / real N)"
    by (simp add: link_weight_def)
  also have "\<dots> = 1"
  proof -
    have "N \<noteq> 0" using assms(2,5) by auto
    then show ?thesis using assms(2) by (simp add: sum_list_triv)
  qed
  finally show ?thesis using True by simp
next
  case False
  then have pos: "0 < length (snd e)" by simp
  have "(\<Sum>p\<leftarrow>ks. link_weight N p e) =
        (\<Sum>p\<leftarrow>ks. if p \<noteq> fst e \<and> p \<in> set (snd e) then 1 / real (length (snd e)) else 0)"
    using False by (simp add: link_weight_def)
  also have "\<dots> = real (length (filter (\<lambda>p. p \<noteq> fst e \<and> p \<in> set (snd e)) ks)) *
                    (1 / real (length (snd e)))"
    by (rule sum_list_indicator)
  also have "\<dots> = 1 - (if fst e \<in> set (snd e) then 1 / real (length (snd e)) else 0)"
  proof -
    obtain m where m: "length (snd e) = Suc m"
      using pos by (cases "length (snd e)") auto
    show ?thesis
      unfolding filter_links_count[OF assms(1,3,4)] m by (simp add: field_simps)
  qed
  finally show ?thesis .
qed

lemma total_link_sum:
  assumes "valid_corpus corpus" and "no_dangling_links corpus" and "corpus \<noteq> []"
  shows "(\<Sum>p\<leftarrow>keys corpus. link_sum corpus r p) =
           (\<Sum>q\<leftarrow>keys corpus. r q) - self_link_loss corpus r"
proof -
  let ?N = "length corpus"
  have dk: "distinct (keys corpus)" using assms(1) by (simp add: valid_corpus_def)
  have lk: "length (keys corpus) = ?N" by (simp add: keys_def)
  have ne: "keys corpus \<noteq> []" using assms(3) by (simp add: keys_def)
  have "(\<Sum>p\<leftarrow>keys corpus. link_sum corpus r p) =
        (\<Sum>e\<leftarrow>corpus. \<Sum>p\<leftarrow>keys corpus. link_weight ?N p e * r (fst e))"
    unfolding link_sum_def by (rule sum_list_swap)
  also have "\<dots> = (\<Sum>e\<leftarrow>corpus. (\<Sum>p\<leftarrow>keys corpus. link_weight ?N p e) * r (fst e))"
    by (simp add: sum_list_mult_const)
  also have "\<dots> = (\<Sum>e\<leftarrow>corpus. r (fst e) -
        (if (case e of (q, links) \<Rightarrow> q \<in> set links)
         then (case e of (q, links) \<Rightarrow> r q / real (length links)) else 0))"
  proof (intro arg_cong[where f = sum_list] map_cong refl)
    fix e assume e: "e \<in> set corpus"
    then have "snd e \<in> set (vals corpus)" by (simp add: vals_def)
    then have "distinct (snd e)" "set (snd e) \<subseteq> set (keys corpus)"
      using assms(1,2) by (auto simp: valid_corpus_def no_dangling_links_def)
    note tot = link_weight_total[OF dk lk this ne]
    have "(\<Sum>p\<leftarrow>keys corpus. link_weight ?N p e) * r (fst e) =
        (1 - (if fst e \<in> set (snd e) then 1 / real (length (snd e)) else 0)) * r (fst e)"
      by (simp only: tot)
    also have "\<dots> = r (fst e) -
        (if (case e of (q, links) \<Rightarrow> q \<in> set links)
         then (case e of (q, links) \<Rightarrow> r q / real (length links)) else 0)"
      by (cases e) (simp add: algebra_simps)
    finally show "(\<Sum>p\<leftarrow>keys corpus. link_weight ?N p e) * r (fst e) = r (fst e) -
        (if (case e of (q, links) \<Rightarrow> q \<in> set links)
         then (case e of (q, links) \<Rightarrow> r q / real (length links)) else 0)" .
  qed
  also have "\<dots> = (\<Sum>q\<leftarrow>keys corpus. r q) - self_link_loss corpus r"
    by (simp add: sum_list_subtractf self_link_loss_def sum_list_filter_if keys_def comp_def)
  finally show ?thesis .
qed

lemma total_new_rank:
  assumes "valid_corpus corpus" and "no_dangling_links corpus" and "corpus \<noteq> []"
  shows "(\<Sum>p\<leftarrow>keys corpus. new_rank corpus d r p) =
           (1 - d) + d * ((\<Sum>q\<leftarrow>keys corpus. r q) - self_link_loss corpus r)"
proof -
  have "(\<Sum>p\<leftarrow>keys corpus. new_rank corpus d r p) =
        (\<Sum>p\<leftarrow>keys corpus. (1 - d) / real (length corpus)) +
        (\<Sum>p\<leftarrow>keys corpus. d * link_sum corpus r p)"
    by (simp add: new_rank_def sum_list_addf)
  also have "(\<Sum>p\<leftarrow>keys corpus. (1 - d) / real (length corpus)) = 1 - d"
    using assms(3) by (simp add: sum_list_triv length_keys)
  also have "(\<Sum>p\<leftarrow>keys corpus. d * link_sum corpus r p) =
      d * ((\<Sum>q\<leftarrow>keys corpus. r q) - self_link_loss corpus r)"
    by (simp add: sum_list_const_mult total_link_sum[OF assms])
  finally show ?thesis .
qed

lemma no_self_link_loss: "no_self_links corpus \<Longrightarrow> self_link_loss corpus r = 0"
proof -
  assume "no_self_links corpus"
  then have "filter (\<lambda>(q, links). q \<in> set links) corpus = []"
    by (auto simp: no_self_links_def filter_empty_conv)
  then show ?thesis by (simp add: self_link_loss_def)
qed

lemma sum_vals_next_ranks:
  assumes "valid_corpus corpus" and "no_dangling_links corpus" and "corpus \<noteq> []"
    and "keys page_rank = keys corpus"
  shows "sum_list (vals (next_ranks corpus d page_rank)) =
           (1 - d) + d * (sum_list (vals page_rank) - self_link_loss corpus (rank_of page_rank))"
proof -
  have dk: "distinct (keys page_rank)" using assms(1,4) by (simp add: valid_corpus_def)
  have "sum_list (vals page_rank) = (\<Sum>q\<leftarrow>keys corpus. rank_of page_rank q)"
    using vals_as_rank_of[OF dk] assms(4) by simp
  then show ?thesis
    using total_new_rank[OF assms(1,2,3), of d "rank_of page_rank"]
    by (simp add: next_ranks_def vals_const_dict)
qed

lemma sum_vals_initial: "corpus \<noteq> [] \<Longrightarrow> sum_list (vals (initial_ranks corpus)) = 1"
  by (simp add: initial_ranks_def vals_const_dict sum_list_triv length_keys)

lemma sum_vals_ranks_after:
  assumes "valid_corpus corpus" and "no_dangling_links corpus" and "no_self_links corpus"
    and "corpus \<noteq> []"
  shows "sum_list (vals (ranks_after corpus d k)) = 1"
proof (induction k)
  case 0
  show ?case using assms(4) by (simp add: ranks_after_def sum_vals_initial)
next
  case (Suc k)
  show ?case
    using sum_vals_next_ranks[OF assms(1,2,4) keys_ranks_after, of d d k] Suc
    by (simp add: ranks_after_Suc no_self_link_loss[OF assms(3)])
qed

section \<open>The example corpora, evaluated\<close>

lemma ranks_after_0: "ranks_after corpus d 0 = initial_ranks corpus"
  by (simp add: ranks_after_def)

lemma next_two_cycle:
  "next_ranks two_cycle (85 / 100) [(''1.html'', 1 / 2), (''2.html'', 1 / 2)] =
     [(''1.html'', 1 / 2), (''2.html'', 1 / 2)]"
  by (simp add: next_ranks_def new_rank_def link_sum_def link_weight_def rank_of_def
      two_cycle_def keys_def)

lemma initial_two_cycle: "initial_ranks two_cycle = [(''1.html'', 1 / 2), (''2.html'', 1 / 2)]"
  by (simp add: initial_ranks_def two_cycle_def keys_def)

lemma next_three_0:
  "next_ranks three_pages 1 [(''1.html'', 1 / 3), (''2.html'', 1 / 3), (''3.html'', 1 / 3)] =
     [(''1.html'', 2 / 3), (''2.html'', 1 / 3), (''3.html'', 0)]"
  by (simp add: next_ranks_def new_rank_def link_sum_def link_weight_def rank_of_def
      three_pages_def keys_def)

lemma next_three_1:
  "next_ranks three_pages 1 [(''1.html'', 2 / 3), (''2.html'', 1 / 3), (''3.html'', 0)] =
     [(''1.html'', 1 / 3), (''2.html'', 2 / 3), (''3.html'', 0)]"
  by (simp add: next_ranks_def new_rank_def link_sum_def link_weight_def rank_of_def
      three_pages_def keys_def)

lemma next_three_2:
  "next_ranks three_pages 1 [(''1.html'', 1 / 3), (''2.html'', 2 / 3), (''3.html'', 0)] =
     [(''1.html'', 2 / 3), (''2.html'', 1 / 3), (''3.html'', 0)]"
  by (simp add: next_ranks_def new_rank_def link_sum_def link_weight_def rank_of_def
      three_pages_def keys_def)

lemma initial_three:
  "initial_ranks three_pages =
     [(''1.html'', 1 / 3), (''2.html'', 1 / 3), (''3.html'', 1 / 3)]"
  by (simp add: initial_ranks_def three_pages_def keys_def)

lemma three_pages_odd_even:
  "ranks_after three_pages 1 (Suc (2 * k)) =
     [(''1.html'', 2 / 3), (''2.html'', 1 / 3), (''3.html'', 0)] \<and>
   ranks_after three_pages 1 (Suc (Suc (2 * k))) =
     [(''1.html'', 1 / 3), (''2.html'', 2 / 3), (''3.html'', 0)]"
proof (induction k)
  case 0
  have a: "ranks_after three_pages 1 (Suc 0) =
      [(''1.html'', 2 / 3), (''2.html'', 1 / 3), (''3.html'', 0)]"
    by (simp only: ranks_after_Suc ranks_after_0 initial_three next_three_0)
  have "ranks_after three_pages 1 (Suc (Suc 0)) =
      [(''1.html'', 1 / 3), (''2.html'', 2 / 3), (''3.html'', 0)]"
    by (simp only: ranks_after_Suc[of _ _ "Suc 0"] a next_three_1)
  with a show ?case by simp
next
  case (Suc k)
  have e: "2 * Suc k = Suc (Suc (2 * k))" by simp
  have a: "ranks_after three_pages 1 (Suc (2 * Suc k)) =
      [(''1.html'', 2 / 3), (''2.html'', 1 / 3), (''3.html'', 0)]"
    unfolding e ranks_after_Suc[of _ _ "Suc (Suc (2 * k))"] using Suc
    by (simp only: next_three_2)
  have "ranks_after three_pages 1 (Suc (Suc (2 * Suc k))) =
      [(''1.html'', 1 / 3), (''2.html'', 2 / 3), (''3.html'', 0)]"
    unfolding ranks_after_Suc[of _ _ "Suc (2 * Suc k)"] a by (simp only: next_three_1)
  with a show ?case by simp
qed

lemma three_pages_never_converged:
  "\<not> converged (ranks_after three_pages 1 k) (ranks_after three_pages 1 (Suc k))"
proof (cases k)
  case 0
  have "\<not> converged [(''1.html'', 1 / 3), (''2.html'', 1 / 3), (''3.html'', 1 / 3)]
           [(''1.html'', 2 / 3), (''2.html'', 1 / 3), (''3.html'', 0)]"
    by (simp add: converged_def keys_def rank_of_def)
  then show ?thesis
    using three_pages_odd_even[of 0] unfolding 0 ranks_after_0 initial_three by simp
next
  case (Suc j)
  have ab: "\<not> converged [(''1.html'', 2 / 3), (''2.html'', 1 / 3), (''3.html'', 0)]
           [(''1.html'', 1 / 3), (''2.html'', 2 / 3), (''3.html'', 0)]"
    by (simp add: converged_def keys_def rank_of_def)
  have ba: "\<not> converged [(''1.html'', 1 / 3), (''2.html'', 2 / 3), (''3.html'', 0)]
           [(''1.html'', 2 / 3), (''2.html'', 1 / 3), (''3.html'', 0)]"
    by (simp add: converged_def keys_def rank_of_def)
  show ?thesis
  proof (cases "even j")
    case True
    then obtain i where "j = 2 * i" by (auto elim: evenE)
    with Suc three_pages_odd_even[of i] ab show ?thesis by simp
  next
    case False
    then obtain i where "j = Suc (2 * i)" by (auto elim: oddE)
    with Suc three_pages_odd_even[of i] three_pages_odd_even[of "Suc i"] ba show ?thesis
      by simp
  qed
qed

lemma valid_three_pages: "valid_corpus three_pages"
  by (simp add: valid_corpus_def three_pages_def keys_def vals_def)

lemma three_pages_diverges: "iterate_pagerank three_pages 1 = None"
  by (rule iterate_pagerank_diverges[OF valid_three_pages]) (simp add: three_pages_never_converged)

lemma sweep_empty: "sweep [] d 0 [] [] = Inr ([], [], False)"
  by (simp add: sweep_def keys_def)

lemma iterate_pagerank_empty: "iterate_pagerank [] d = Some (Inr [])"
  by (simp add: iterate_pagerank_def keys_def iterate_loop.simps sweep_empty)

lemma two_cycle_run:
  "iterate_pagerank two_cycle (85 / 100) = Some (Inr [(''1.html'', 1 / 2), (''2.html'', 1 / 2)])"
proof -
  have r0: "ranks_after two_cycle (85 / 100) 0 = [(''1.html'', 1 / 2), (''2.html'', 1 / 2)]"
    by (simp only: ranks_after_0 initial_two_cycle)
  have r1: "ranks_after two_cycle (85 / 100) (Suc 0) = [(''1.html'', 1 / 2), (''2.html'', 1 / 2)]"
    by (simp only: ranks_after_Suc r0 next_two_cycle)
  have "converged (ranks_after two_cycle (85 / 100) 0) (ranks_after two_cycle (85 / 100) (Suc 0))"
    unfolding r0 r1 by (simp add: converged_def)
  from iterate_pagerank_SomeI[OF valid_two_cycle this] show ?thesis unfolding r1 by simp
qed

section \<open>Facts used by the claims about the iterative estimator\<close>

lemma self_link_loss_nonneg:
  assumes "\<forall>q \<in> set (keys corpus). 0 \<le> r q"
  shows "0 \<le> self_link_loss corpus r"
  unfolding self_link_loss_def
proof (rule sum_list_nonneg)
  fix x
  assume "x \<in> set (map (\<lambda>(q, links). r q / real (length links))
                    (filter (\<lambda>(q, links). q \<in> set links) corpus))"
  then obtain q links where e: "(q, links) \<in> set corpus" "x = r q / real (length links)"
    by auto
  from e(1) have "q \<in> set (keys corpus)" by (force simp: keys_def)
  with assms e(2) show "0 \<le> x" by simp
qed

lemma self_link_loss_pos:
  assumes "\<not> no_self_links corpus" and "\<forall>q \<in> set (keys corpus). 0 < r q"
  shows "0 < self_link_loss corpus r"
proof -
  from assms(1) obtain q links where e: "(q, links) \<in> set corpus" "q \<in> set links"
    by (auto simp: no_self_links_def)
  let ?xs = "map (\<lambda>(q, links). r q / real (length links))
               (filter (\<lambda>(q, links). q \<in> set links) corpus)"
  have qk: "q \<in> set (keys corpus)" using e(1) by (force simp: keys_def)
  have "links \<noteq> []" using e(2) by auto
  then have pos: "0 < r q / real (length links)" using assms(2) qk by simp
  have mem: "r q / real (length links) \<in> set ?xs" using e by force
  have nonneg: "0 \<le> x" if "x \<in> set ?xs" for x
  proof -
    from that obtain q' links' where e': "(q', links') \<in> set corpus"
        "x = r q' / real (length links')"
      by auto
    from e'(1) have "q' \<in> set (keys corpus)" by (force simp: keys_def)
    with assms(2) e'(2) show ?thesis by (simp add: less_imp_le)
  qed
  have "r q / real (length links) \<le> sum_list ?xs"
    using mem nonneg by (rule member_le_sum_list)
  with pos show ?thesis unfolding self_link_loss_def by linarith
qed

lemma ranks_after_pos:
  assumes "0 \<le> d" and "d < 1" and "p \<in> set (keys corpus)"
  shows "0 < rank_of (ranks_after corpus d k) p"
proof (cases k)
  case 0
  have "corpus \<noteq> []" using assms(3) by (auto simp: keys_def)
  then show ?thesis
    using assms(3) 0 by (simp add: ranks_after_0 initial_ranks_def rank_of_const_dict)
next
  case (Suc j)
  have "corpus \<noteq> []" using assms(3) by (auto simp: keys_def)
  then have "0 < (1 - d) / real (length corpus)" using assms(2) by simp
  also have "\<dots> \<le> rank_of (ranks_after corpus d (Suc j)) p"
    using assms by (intro ranks_after_lower) auto
  finally show ?thesis using Suc by simp
qed

lemma sum_vals_ranks_after_lt:
  assumes "valid_corpus corpus" and "no_dangling_links corpus" and "\<not> no_self_links corpus"
    and "0 < d" and "d < 1"
  shows "sum_list (vals (ranks_after corpus d (Suc k))) < 1"
proof -
  have ne: "corpus \<noteq> []" using assms(3) by (auto simp: no_self_links_def)
  have d0: "0 \<le> d" using assms(4) by simp
  have step: "sum_list (vals (ranks_after corpus d (Suc j))) <
      (1 - d) + d * sum_list (vals (ranks_after corpus d j))" for j
  proof -
    have "0 < self_link_loss corpus (rank_of (ranks_after corpus d j))"
      using ranks_after_pos[OF d0 assms(5)] by (intro self_link_loss_pos assms(3)) auto
    then have "0 < d * self_link_loss corpus (rank_of (ranks_after corpus d j))"
      using assms(4) by simp
    then show ?thesis
      using sum_vals_next_ranks[OF assms(1,2) ne keys_ranks_after, of d d j]
      by (simp add: ranks_after_Suc algebra_simps)
  qed
  have le: "sum_list (vals (ranks_after corpus d j)) \<le> 1" for j
  proof (induction j)
    case 0
    show ?case using ne by (simp add: ranks_after_0 sum_vals_initial)
  next
    case (Suc j)
    have "d * sum_list (vals (ranks_after corpus d j)) \<le> d * 1"
      using Suc d0 by (intro mult_left_mono) auto
    with step[of j] show ?case by simp
  qed
  have "d * sum_list (vals (ranks_after corpus d k)) \<le> d * 1"
    using le[of k] d0 by (intro mult_left_mono) auto
  with step[of k] show ?thesis by simp
qed

lemma no_self_links_two_cycle: "no_self_links two_cycle"
  by (simp add: no_self_links_def two_cycle_def)

lemma keys_initial_two_cycle:
  "keys [(''1.html'', 1 / 2 :: real), (''2.html'', 1 / 2)] = keys two_cycle"
  by (simp add: keys_def two_cycle_def)

lemma valid_self_linked: "valid_corpus self_linked"
  by (simp add: valid_corpus_def self_linked_def keys_def vals_def)

lemma no_dangling_self_linked: "no_dangling_links self_linked"
  by (simp add: no_dangling_links_def self_linked_def keys_def vals_def)

lemma self_linked_has_self_link: "\<not> no_self_links self_linked"
  by (simp add: no_self_links_def self_linked_def)

lemma keys_initial_self_linked:
  "keys [(''1.html'', 1 / 2 :: real), (''2.html'', 1 / 2)] = keys self_linked"
  by (simp add: keys_def self_linked_def)

lemma no_dangling_three_pages: "no_dangling_links three_pages"
  by (simp add: no_dangling_links_def three_pages_def keys_def vals_def)

lemma no_self_links_three_pages: "no_self_links three_pages"
  by (simp add: no_self_links_def three_pages_def)

lemma sweep_ranks_after:
  assumes "valid_corpus corpus"
  shows "sweep corpus d (length corpus) (ranks_after corpus d j)
           (if j = 0 then [] else ranks_after corpus d j) =
         Inr (ranks_after corpus d (Suc j), ranks_after corpus d (Suc j),
              \<not> converged (ranks_after corpus d j) (ranks_after corpus d (Suc j)))"
  unfolding ranks_after_Suc
  by (rule sweep_eq[OF assms keys_ranks_after]) (simp add: keys_ranks_after)

lemma iterate_pagerank_result:
  assumes "valid_corpus corpus" and "iterate_pagerank corpus d = Some res"
  shows "\<exists>k. res = Inr (ranks_after corpus d (Suc k))"
  using iterate_pagerank_SomeD[OF assms] by blast

lemma link_sum_code_dict:
  "new_rank corpus d r p =
     (1 - d) / real (length corpus) +
     d * ((\<Sum>(q, links)\<leftarrow>filter (\<lambda>(q, links). p \<noteq> q \<and> p \<in> set links) corpus.
              r q / real (length links)) +
          (\<Sum>(q, links)\<leftarrow>filter (\<lambda>(q, links). links = []) corpus.
              r q / real (length corpus)))"
  by (simp add: new_rank_def link_sum_code)

lemma self_linked_nonempty: "self_linked \<noteq> []"
  by (simp add: self_linked_def)

section \<open>Claims about the transition model\<close>

text \<open>
  C1. For a page that is a key of the corpus and whose links are all pages of the
  corpus, \<^verbatim>\<open>transition_model\<close> returns a mapping over exactly the corpus pages. If
  the page has links, a linked page gets \<open>(1 - d) / num_pages + d / num_links\<close> and
  every other page gets the base \<open>(1 - d) / num_pages\<close>, so a linked page exceeds the
  baseline by exactly \<open>d / num_links\<close>; if the page has no links, every page gets
  \<open>1 / num_pages\<close>. The damping factor may be any real number.
\<close>

theorem transition_model_distribution:
  assumes "valid_corpus corpus" and "dict_get corpus page = Inr links"
    and "set links \<subseteq> set (keys corpus)"
  shows "\<exists>dist. transition_model corpus page damping_factor = Inr dist \<and>
           keys dist = keys corpus \<and>
           (\<forall>q \<in> set (keys corpus). dict_get dist q = Inr
              (if length links > 0
               then (if q \<in> set links
                     then (1 - damping_factor) / real (length corpus) +
                          damping_factor / real (length links)
                     else (1 - damping_factor) / real (length corpus))
               else 1 / real (length corpus)))"
  using transition_model_eq[OF assms]
  by (auto simp: keys_const_dict dict_get_def map_of_const_dict transition_prob_def)

theorem transition_model_distribution_witness:
  "valid_corpus two_cycle \<and> dict_get two_cycle ''1.html'' = Inr [''2.html''] \<and>
   set [''2.html''] \<subseteq> set (keys two_cycle) \<and>
   (\<exists>dist. transition_model two_cycle ''1.html'' (85 / 100) = Inr dist \<and>
           keys dist = keys two_cycle \<and>
           (\<forall>q \<in> set (keys two_cycle). dict_get dist q = Inr
              (if length [''2.html''] > 0
               then (if q \<in> set [''2.html'']
                     then (1 - 85 / 100) / real (length two_cycle) +
                          (85 / 100) / real (length [''2.html''])
                     else (1 - 85 / 100) / real (length two_cycle))
               else 1 / real (length two_cycle))))"
  using transition_model_distribution[OF valid_two_cycle two_cycle_lookup two_cycle_links,
      of "85 / 100"]
    valid_two_cycle two_cycle_lookup two_cycle_links
  by blast

text \<open>
  C7. Under the same conditions the values of the distribution returned by
  \<^verbatim>\<open>transition_model\<close> sum to exactly 1, for every damping factor.
\<close>

theorem transition_model_sums_to_one:
  assumes "valid_corpus corpus" and "dict_get corpus page = Inr links"
    and "set links \<subseteq> set (keys corpus)"
  shows "\<exists>dist. transition_model corpus page damping_factor = Inr dist \<and>
           sum_list (vals dist) = 1"
  using transition_model_eq[OF assms] transition_model_total[OF assms]
  by (simp add: vals_const_dict)

theorem transition_model_sums_to_one_witness:
  "valid_corpus two_cycle \<and> dict_get two_cycle ''1.html'' = Inr [''2.html''] \<and>
   set [''2.html''] \<subseteq> set (keys two_cycle) \<and>
   (\<exists>dist. transition_model two_cycle ''1.html'' (85 / 100) = Inr dist \<and>
           sum_list (vals dist) = 1)"
  using transition_model_sums_to_one[OF valid_two_cycle two_cycle_lookup two_cycle_links,
      of "85 / 100"]
    valid_two_cycle two_cycle_lookup two_cycle_links
  by blast

lemma no_dangling_two_cycle: "no_dangling_links two_cycle"
  by (simp add: no_dangling_links_def two_cycle_def keys_def vals_def)

lemma two_cycle_nonempty: "two_cycle \<noteq> []"
  by (simp add: two_cycle_def)

section \<open>Claims about the sampling estimator\<close>

text \<open>
  C3. The claim as stated fails in one point: the first page drawn is tallied (it is
  the last page drawn that never is; the counterexample follows the witness). What
  holds: for every non-empty corpus without dangling links, every damping factor, every
  \<open>n \<ge> 1\<close> and every random source with values in \<open>[0, 1)\<close>,
  \<^verbatim>\<open>sample_pagerank\<close> returns a mapping. Of the \<open>n\<close> pages drawn, beginning with
  the first random page, all but the last are tallied, so \<open>n - 1\<close> visits are counted;
  the rank of a page is the number of its visits divided by \<open>n\<close>, and the ranks sum to
  exactly \<open>(n - 1) / n\<close>. For \<open>n = 1\<close> every page has rank 0.
\<close>

theorem sample_pagerank_tallies:
  assumes "valid_corpus corpus" and "no_dangling_links corpus" and "corpus \<noteq> []"
    and "1 \<le> n" and "\<forall>t. 0 \<le> rnd t \<and> rnd t < 1"
  shows "\<exists>page_rank first.
           sample_pagerank corpus damping_factor n rnd = Inr page_rank \<and>
           choice (keys corpus) (rnd 0) = Inr first \<and>
           visited corpus damping_factor rnd 1 (nat (n - 1)) first =
             butlast (visited corpus damping_factor rnd 1 (nat n) first) \<and>
           length (visited corpus damping_factor rnd 1 (nat n) first) = nat n \<and>
           hd (visited corpus damping_factor rnd 1 (nat n) first) = first \<and>
           (\<forall>q \<in> set (keys corpus). dict_get page_rank q = Inr
              (real (count_list (visited corpus damping_factor rnd 1 (nat (n - 1)) first) q) /
               real_of_int n)) \<and>
           sum_list (vals page_rank) = (real_of_int n - 1) / real_of_int n \<and>
           (n = 1 \<longrightarrow> (\<forall>p \<in> set (keys corpus). dict_get page_rank p = Inr 0))"
proof -
  have n0: "n \<noteq> 0" using assms(4) by simp
  have r0: "0 \<le> rnd 0" "rnd 0 < 1" using assms(5) by auto
  from sample_pagerank_counts[where rnd = rnd and d = damping_factor,
      OF assms(1,2,3) n0 r0]
  obtain page_rank first where
    c: "sample_pagerank corpus damping_factor n rnd = Inr page_rank"
       "choice (keys corpus) (rnd 0) = Inr first"
       "\<forall>q \<in> set (keys corpus). dict_get page_rank q = Inr
          (real (count_list (visited corpus damping_factor rnd 1 (nat (n - 1)) first) q) /
           real_of_int n)"
    by blast
  from sample_pagerank_ok[where rnd = rnd and d = damping_factor, OF assms(1,2,3) n0 r0] c(1)
  have s: "sum_list (vals page_rank) = real (nat (n - 1)) / real_of_int n"
    and z: "n \<le> 1 \<longrightarrow> page_rank = map (\<lambda>key. (key, 0)) (keys corpus)"
    by auto
  have fk: "first \<in> set (keys corpus)"
    using c(2) by (auto simp: choice_def Let_def split: if_splits)
  obtain m where m: "nat n = Suc m" "nat (n - 1) = m"
    using assms(4) by (cases "nat n") auto
  have b: "visited corpus damping_factor rnd 1 (nat (n - 1)) first =
      butlast (visited corpus damping_factor rnd 1 (nat n) first)"
    unfolding m by (rule butlast_visited[OF assms(1,2) fk, symmetric])
  have l: "length (visited corpus damping_factor rnd 1 (nat n) first) = nat n"
    using sample_loop_counts[where page_rank = "map (\<lambda>key. (key, 0)) (keys corpus)"
        and d = damping_factor and rnd = rnd and t = 1 and k = "nat n",
        OF assms(1,2) keys_const_dict fk]
    by blast
  have h: "hd (visited corpus damping_factor rnd 1 (nat n) first) = first"
    unfolding m by simp
  have "real (nat (n - 1)) = real_of_int n - 1" using assms(4) by simp
  with s have s': "sum_list (vals page_rank) = (real_of_int n - 1) / real_of_int n" by simp
  have z': "n = 1 \<longrightarrow> (\<forall>p \<in> set (keys corpus). dict_get page_rank p = Inr 0)"
    using z by (auto simp: dict_get_def map_of_const_dict)
  from c b l h s' z' show ?thesis by blast
qed

theorem sample_pagerank_tallies_witness:
  "valid_corpus two_cycle \<and> no_dangling_links two_cycle \<and> two_cycle \<noteq> [] \<and> (1::int) \<le> 2 \<and>
   (1::int) \<le> 1 \<and> (\<forall>t. 0 \<le> fixed_source t \<and> fixed_source t < 1) \<and>
   (\<exists>page_rank first.
      sample_pagerank two_cycle (85 / 100) 2 fixed_source = Inr page_rank \<and>
      choice (keys two_cycle) (fixed_source 0) = Inr first \<and>
      visited two_cycle (85 / 100) fixed_source 1 (nat (2 - 1)) first =
        butlast (visited two_cycle (85 / 100) fixed_source 1 (nat 2) first) \<and>
      sum_list (vals page_rank) = (real_of_int 2 - 1) / real_of_int 2) \<and>
   (\<exists>page_rank. sample_pagerank two_cycle (85 / 100) 1 fixed_source = Inr page_rank \<and>
      sum_list (vals page_rank) = (real_of_int 1 - 1) / real_of_int 1 \<and>
      dict_get page_rank ''1.html'' = Inr 0 \<and> dict_get page_rank ''2.html'' = Inr 0)"
proof -
  have h2: "(1::int) \<le> 2" and h1: "(1::int) \<le> 1" by simp_all
  note t2 = sample_pagerank_tallies[where damping_factor = "85 / 100",
      OF valid_two_cycle no_dangling_two_cycle two_cycle_nonempty h2 fixed_source_range]
  note t1 = sample_pagerank_tallies[where damping_factor = "85 / 100",
      OF valid_two_cycle no_dangling_two_cycle two_cycle_nonempty h1 fixed_source_range]
  from t2 have a: "\<exists>page_rank first.
      sample_pagerank two_cycle (85 / 100) 2 fixed_source = Inr page_rank \<and>
      choice (keys two_cycle) (fixed_source 0) = Inr first \<and>
      visited two_cycle (85 / 100) fixed_source 1 (nat (2 - 1)) first =
        butlast (visited two_cycle (85 / 100) fixed_source 1 (nat 2) first) \<and>
      sum_list (vals page_rank) = (real_of_int 2 - 1) / real_of_int 2"
    by blast
  from t1 obtain page_rank where
    p: "sample_pagerank two_cycle (85 / 100) 1 fixed_source = Inr page_rank"
       "sum_list (vals page_rank) = (real_of_int 1 - 1) / real_of_int 1"
       "\<forall>p \<in> set (keys two_cycle). dict_get page_rank p = Inr 0"
    by blast
  from p(3) have "dict_get page_rank ''1.html'' = Inr 0" "dict_get page_rank ''2.html'' = Inr 0"
    by (simp_all add: two_cycle_def keys_def)
  with p(1,2) have b: "\<exists>page_rank.
      sample_pagerank two_cycle (85 / 100) 1 fixed_source = Inr page_rank \<and>
      sum_list (vals page_rank) = (real_of_int 1 - 1) / real_of_int 1 \<and>
      dict_get page_rank ''1.html'' = Inr 0 \<and> dict_get page_rank ''2.html'' = Inr 0"
    by blast
  from a b valid_two_cycle no_dangling_two_cycle two_cycle_nonempty h1 h2 fixed_source_range
  show ?thesis by blast
qed

text \<open>
  C3, counterexample. With \<open>n = 2\<close> on the two-cycle, the first page drawn is
  \<^verbatim>\<open>2.html\<close>, and it is the page that is tallied: it gets rank \<open>1/2\<close>.
\<close>

theorem sample_pagerank_first_draw_tallied:
  "choice (keys two_cycle) (fixed_source 0) = Inr ''2.html'' \<and>
   sample_pagerank two_cycle (85 / 100) 2 fixed_source =
     Inr [(''1.html'', 0), (''2.html'', 1 / 2)]"
  using two_cycle_first_draw two_cycle_two_samples by simp

section \<open>Claims about the iterative estimator\<close>

text \<open>
  C2. For a corpus without self-links, one sweep computes, for every page \<open>p\<close>,
  \<open>new_rank p = (1 - d) / N + d * (sum over the pages q that link to p of
  rank q / |links q|, plus rank q / N for every page q without links)\<close>, the latter
  added for every \<open>p\<close>, \<open>q\<close> itself included. Every \<open>rank q\<close> on the right is the
  rank in \<^verbatim>\<open>page_rank\<close> when the sweep starts, that is, the result of the
  previous full sweep: the new ranks are collected in \<^verbatim>\<open>calculated_pr\<close> and
  adopted together. The hypotheses on the two dicts are what the loop maintains:
  \<^verbatim>\<open>page_rank\<close> has the pages of the corpus as its keys, and
  \<^verbatim>\<open>calculated_pr\<close> is empty (first sweep) or has the same keys.
\<close>

theorem sweep_recurrence:
  assumes "valid_corpus corpus" and "no_self_links corpus"
    and "keys page_rank = keys corpus"
    and "calculated_pr = [] \<or> keys calculated_pr = keys corpus"
  shows "\<exists>new_ranks condition.
           sweep corpus damping_factor (length corpus) page_rank calculated_pr =
             Inr (new_ranks, new_ranks, condition) \<and>
           keys new_ranks = keys corpus \<and>
           (\<forall>p \<in> set (keys corpus). dict_get new_ranks p =
              Inr (spec_new_rank corpus damping_factor (rank_of page_rank) p))"
proof -
  let ?new = "next_ranks corpus damping_factor page_rank"
  have "dict_get ?new p = Inr (spec_new_rank corpus damping_factor (rank_of page_rank) p)"
    if "p \<in> set (keys corpus)" for p
    using that dict_get_rank_of[of p ?new]
    by (simp add: keys_next_ranks rank_of_next_ranks new_rank_spec[OF assms(2)])
  with sweep_eq[OF assms(1,3,4), of damping_factor] keys_next_ranks[of corpus damping_factor page_rank]
  show ?thesis by blast
qed

theorem sweep_recurrence_witness:
  "valid_corpus two_cycle \<and> no_self_links two_cycle \<and>
   keys [(''1.html'', 1 / 2 :: real), (''2.html'', 1 / 2)] = keys two_cycle \<and>
   (\<exists>new_ranks condition.
      sweep two_cycle (85 / 100) (length two_cycle)
        [(''1.html'', 1 / 2), (''2.html'', 1 / 2)] [] = Inr (new_ranks, new_ranks, condition) \<and>
      keys new_ranks = keys two_cycle \<and>
      (\<forall>p \<in> set (keys two_cycle). dict_get new_ranks p =
         Inr (spec_new_rank two_cycle (85 / 100)
                (rank_of [(''1.html'', 1 / 2), (''2.html'', 1 / 2)]) p)))"
proof -
  have h: "([] :: string dict) = [] \<or> keys ([] :: string dict) = keys two_cycle" by simp
  from sweep_recurrence[OF valid_two_cycle no_self_links_two_cycle keys_initial_two_cycle h,
      of "85 / 100"]
    valid_two_cycle no_self_links_two_cycle keys_initial_two_cycle
  show ?thesis by blast
qed

text \<open>
  C5. The claim as stated fails: with damping factor 1 the loop need not end (the
  counterexample follows the witness). What holds: for every corpus and every damping
  factor \<open>d\<close> with \<open>0 \<le> d < 1\<close> the loop ends. It returns the ranks computed by
  sweep \<open>k + 1\<close>, where \<open>k + 1\<close> is the first sweep in which no page moved by more than
  \<open>0.001\<close>: every earlier sweep moved some page by more. The last conjunct says
  that the sequence \<open>ranks_after\<close> is the sequence of sweeps of the loop, whose
  \<^verbatim>\<open>condition\<close> is the negation of the test.
\<close>

theorem iterate_pagerank_stops:
  assumes "valid_corpus corpus" and "0 \<le> damping_factor" and "damping_factor < 1"
  shows "\<exists>k. iterate_pagerank corpus damping_factor =
               Some (Inr (ranks_after corpus damping_factor (Suc k))) \<and>
             converged (ranks_after corpus damping_factor k)
               (ranks_after corpus damping_factor (Suc k)) \<and>
             (\<forall>j<k. \<not> converged (ranks_after corpus damping_factor j)
                      (ranks_after corpus damping_factor (Suc j))) \<and>
             (\<forall>j. sweep corpus damping_factor (length corpus)
                    (ranks_after corpus damping_factor j)
                    (if j = 0 then [] else ranks_after corpus damping_factor j) =
                  Inr (ranks_after corpus damping_factor (Suc j),
                       ranks_after corpus damping_factor (Suc j),
                       \<not> converged (ranks_after corpus damping_factor j)
                           (ranks_after corpus damping_factor (Suc j))))"
  using iterate_pagerank_returns[OF assms] sweep_ranks_after[OF assms(1), of damping_factor]
  by blast

theorem iterate_pagerank_stops_witness:
  "valid_corpus two_cycle \<and> (0::real) \<le> 85 / 100 \<and> (85::real) / 100 < 1 \<and>
   (\<exists>k. iterate_pagerank two_cycle (85 / 100) =
           Some (Inr (ranks_after two_cycle (85 / 100) (Suc k))) \<and>
         converged (ranks_after two_cycle (85 / 100) k)
           (ranks_after two_cycle (85 / 100) (Suc k)) \<and>
         (\<forall>j<k. \<not> converged (ranks_after two_cycle (85 / 100) j)
                  (ranks_after two_cycle (85 / 100) (Suc j))))"
proof -
  have h1: "(0::real) \<le> 85 / 100" and h2: "(85::real) / 100 < 1" by simp_all
  from iterate_pagerank_stops[OF valid_two_cycle h1 h2] valid_two_cycle h1 h2
  show ?thesis by blast
qed

text \<open>
  C5, counterexample. On the corpus in which pages 1 and 2 link to each other and page 3
  links to page 1, with damping factor 1, the ranks alternate between
  \<open>(2/3, 1/3, 0)\<close> and \<open>(1/3, 2/3, 0)\<close> from the first sweep on, so every sweep moves
  a page by \<open>1/3\<close> and the loop never ends.
\<close>

theorem iterate_pagerank_loops_forever:
  "valid_corpus three_pages \<and> no_dangling_links three_pages \<and> no_self_links three_pages \<and>
   three_pages \<noteq> [] \<and> (0::real) \<le> 1 \<and> (1::real) \<le> 1 \<and>
   iterate_pagerank three_pages 1 = None"
  using valid_three_pages no_dangling_three_pages no_self_links_three_pages
    three_pages_diverges
  by (simp add: three_pages_def)

text \<open>
  C6. For a non-empty corpus without self-links and without dangling links the ranks sum
  to 1 after the initialisation, a sweep that starts from ranks with sum 1 produces ranks
  with sum 1, and every mapping that \<^verbatim>\<open>iterate_pagerank\<close> returns sums to exactly 1.
  For \<open>0 \<le> d < 1\<close> it does return one.
\<close>

theorem iterate_pagerank_total:
  assumes "valid_corpus corpus" and "no_dangling_links corpus" and "no_self_links corpus"
    and "corpus \<noteq> []"
  shows "sum_list (vals (initial_ranks corpus)) = 1 \<and>
         (\<forall>page_rank calculated_pr.
            keys page_rank = keys corpus \<and>
            (calculated_pr = [] \<or> keys calculated_pr = keys corpus) \<and>
            sum_list (vals page_rank) = 1 \<longrightarrow>
            (\<exists>new_ranks condition.
               sweep corpus damping_factor (length corpus) page_rank calculated_pr =
                 Inr (new_ranks, new_ranks, condition) \<and>
               sum_list (vals new_ranks) = 1)) \<and>
         (\<forall>res. iterate_pagerank corpus damping_factor = Some res \<longrightarrow>
            (\<exists>page_rank. res = Inr page_rank \<and> sum_list (vals page_rank) = 1)) \<and>
         (0 \<le> damping_factor \<and> damping_factor < 1 \<longrightarrow>
            (\<exists>page_rank. iterate_pagerank corpus damping_factor = Some (Inr page_rank) \<and>
               sum_list (vals page_rank) = 1))"
proof (intro conjI allI impI)
  show "sum_list (vals (initial_ranks corpus)) = 1"
    using assms(4) by (rule sum_vals_initial)
next
  fix page_rank calculated_pr :: "'a dict"
  assume h: "keys page_rank = keys corpus \<and>
    (calculated_pr = [] \<or> keys calculated_pr = keys corpus) \<and> sum_list (vals page_rank) = 1"
  then have kp: "keys page_rank = keys corpus"
    and kc: "calculated_pr = [] \<or> keys calculated_pr = keys corpus"
    and s: "sum_list (vals page_rank) = 1"
    by auto
  have "sum_list (vals (next_ranks corpus damping_factor page_rank)) = 1"
    using sum_vals_next_ranks[OF assms(1,2,4) kp, of damping_factor] s
    by (simp add: no_self_link_loss[OF assms(3)])
  with sweep_eq[OF assms(1) kp kc, of damping_factor]
  show "\<exists>new_ranks condition.
      sweep corpus damping_factor (length corpus) page_rank calculated_pr =
        Inr (new_ranks, new_ranks, condition) \<and> sum_list (vals new_ranks) = 1"
    by blast
next
  fix res
  assume "iterate_pagerank corpus damping_factor = Some res"
  from iterate_pagerank_result[OF assms(1) this] obtain k where
    "res = Inr (ranks_after corpus damping_factor (Suc k))" ..
  with sum_vals_ranks_after[OF assms, of damping_factor "Suc k"]
  show "\<exists>page_rank. res = Inr page_rank \<and> sum_list (vals page_rank) = 1" by blast
next
  assume "0 \<le> damping_factor \<and> damping_factor < 1"
  then have "0 \<le> damping_factor" "damping_factor < 1" by auto
  from iterate_pagerank_returns[OF assms(1) this] obtain k where
    "iterate_pagerank corpus damping_factor =
       Some (Inr (ranks_after corpus damping_factor (Suc k)))"
    by blast
  with sum_vals_ranks_after[OF assms, of damping_factor "Suc k"]
  show "\<exists>page_rank. iterate_pagerank corpus damping_factor = Some (Inr page_rank) \<and>
      sum_list (vals page_rank) = 1"
    by blast
qed

theorem iterate_pagerank_total_witness:
  "valid_corpus two_cycle \<and> no_dangling_links two_cycle \<and> no_self_links two_cycle \<and>
   two_cycle \<noteq> [] \<and>
   sum_list (vals (initial_ranks two_cycle)) = 1 \<and>
   keys [(''1.html'', 1 / 2 :: real), (''2.html'', 1 / 2)] = keys two_cycle \<and>
   sum_list (vals [(''1.html'', 1 / 2 :: real), (''2.html'', 1 / 2)]) = 1 \<and>
   (\<exists>new_ranks condition.
      sweep two_cycle (85 / 100) (length two_cycle)
        [(''1.html'', 1 / 2), (''2.html'', 1 / 2)] [] = Inr (new_ranks, new_ranks, condition) \<and>
      sum_list (vals new_ranks) = 1) \<and>
   (\<exists>page_rank. iterate_pagerank two_cycle (85 / 100) = Some (Inr page_rank) \<and>
      sum_list (vals page_rank) = 1)"
proof -
  note t = iterate_pagerank_total[OF valid_two_cycle no_dangling_two_cycle
      no_self_links_two_cycle two_cycle_nonempty, of "85 / 100"]
  have s: "sum_list (vals [(''1.html'', 1 / 2 :: real), (''2.html'', 1 / 2)]) = 1"
    by (simp add: vals_def)
  have d: "(0::real) \<le> 85 / 100 \<and> (85::real) / 100 < 1" by simp
  from t have "sum_list (vals (initial_ranks two_cycle)) = 1" by blast
  moreover from t keys_initial_two_cycle s have "\<exists>new_ranks condition.
      sweep two_cycle (85 / 100) (length two_cycle)
        [(''1.html'', 1 / 2), (''2.html'', 1 / 2)] [] = Inr (new_ranks, new_ranks, condition) \<and>
      sum_list (vals new_ranks) = 1"
    by blast
  moreover from t d have "\<exists>page_rank.
      iterate_pagerank two_cycle (85 / 100) = Some (Inr page_rank) \<and>
      sum_list (vals page_rank) = 1"
    by blast
  ultimately show ?thesis
    using valid_two_cycle no_dangling_two_cycle no_self_links_two_cycle two_cycle_nonempty
      keys_initial_two_cycle s
    by blast
qed

section \<open>Claims about the returned mappings\<close>

text \<open>
  C8. For a non-empty corpus without dangling links, \<open>n \<noteq> 0\<close> and a random source
  with values in \<open>[0, 1)\<close>, \<^verbatim>\<open>sample_pagerank\<close> returns a mapping whose keys are
  the pages of the corpus, in the order of the corpus. Whatever
  \<^verbatim>\<open>iterate_pagerank\<close> returns is a mapping (never an exception) with the same
  keys, and it does return when \<open>0 \<le> d < 1\<close>.
\<close>

theorem rank_keys_match_corpus:
  assumes "valid_corpus corpus" and "no_dangling_links corpus" and "corpus \<noteq> []"
    and "n \<noteq> 0" and "\<forall>t. 0 \<le> rnd t \<and> rnd t < 1"
  shows "(\<exists>page_rank. sample_pagerank corpus damping_factor n rnd = Inr page_rank \<and>
            keys page_rank = keys corpus \<and> set (keys page_rank) = set (keys corpus)) \<and>
         (\<forall>res. iterate_pagerank corpus damping_factor = Some res \<longrightarrow>
            (\<exists>page_rank. res = Inr page_rank \<and> keys page_rank = keys corpus \<and>
               set (keys page_rank) = set (keys corpus))) \<and>
         (0 \<le> damping_factor \<and> damping_factor < 1 \<longrightarrow>
            (\<exists>page_rank. iterate_pagerank corpus damping_factor = Some (Inr page_rank) \<and>
               keys page_rank = keys corpus \<and> set (keys page_rank) = set (keys corpus)))"
proof (intro conjI allI impI)
  have r0: "0 \<le> rnd 0" "rnd 0 < 1" using assms(5) by auto
  from sample_pagerank_ok[where rnd = rnd and d = damping_factor, OF assms(1,2,3,4) r0]
  show "\<exists>page_rank. sample_pagerank corpus damping_factor n rnd = Inr page_rank \<and>
      keys page_rank = keys corpus \<and> set (keys page_rank) = set (keys corpus)"
    by auto
next
  fix res
  assume "iterate_pagerank corpus damping_factor = Some res"
  from iterate_pagerank_result[OF assms(1) this] obtain k where
    "res = Inr (ranks_after corpus damping_factor (Suc k))" ..
  then show "\<exists>page_rank. res = Inr page_rank \<and> keys page_rank = keys corpus \<and>
      set (keys page_rank) = set (keys corpus)"
    by (simp add: keys_ranks_after)
next
  assume "0 \<le> damping_factor \<and> damping_factor < 1"
  then have "0 \<le> damping_factor" "damping_factor < 1" by auto
  from iterate_pagerank_returns[OF assms(1) this] obtain k where
    "iterate_pagerank corpus damping_factor =
       Some (Inr (ranks_after corpus damping_factor (Suc k)))"
    by blast
  then show "\<exists>page_rank. iterate_pagerank corpus damping_factor = Some (Inr page_rank) \<and>
      keys page_rank = keys corpus \<and> set (keys page_rank) = set (keys corpus)"
    by (simp add: keys_ranks_after)
qed

theorem rank_keys_match_corpus_witness:
  "valid_corpus two_cycle \<and> no_dangling_links two_cycle \<and> two_cycle \<noteq> [] \<and> (3::int) \<noteq> 0 \<and>
   (\<forall>t::nat. (0::real) \<le> 1 / 2 \<and> (1::real) / 2 < 1) \<and>
   (0::real) \<le> 85 / 100 \<and> (85::real) / 100 < 1 \<and>
   (\<exists>page_rank. sample_pagerank two_cycle (85 / 100) 3 (\<lambda>t. 1 / 2) = Inr page_rank \<and>
      keys page_rank = keys two_cycle) \<and>
   (\<exists>page_rank. iterate_pagerank two_cycle (85 / 100) = Some (Inr page_rank) \<and>
      keys page_rank = keys two_cycle)"
proof -
  have h3: "(3::int) \<noteq> 0" by simp
  have hr: "\<forall>t::nat. (0::real) \<le> (\<lambda>t. 1 / 2) t \<and> (\<lambda>t. (1::real) / 2) t < 1" by simp
  have d: "(0::real) \<le> 85 / 100 \<and> (85::real) / 100 < 1" by simp
  note t = rank_keys_match_corpus[where rnd = "\<lambda>t. 1 / 2" and damping_factor = "85 / 100",
      OF valid_two_cycle no_dangling_two_cycle two_cycle_nonempty h3 hr]
  from t have "\<exists>page_rank. sample_pagerank two_cycle (85 / 100) 3 (\<lambda>t. 1 / 2) = Inr page_rank \<and>
      keys page_rank = keys two_cycle"
    by blast
  moreover from t d have "\<exists>page_rank.
      iterate_pagerank two_cycle (85 / 100) = Some (Inr page_rank) \<and>
      keys page_rank = keys two_cycle"
    by blast
  ultimately show ?thesis
    using valid_two_cycle no_dangling_two_cycle two_cycle_nonempty by simp
qed

text \<open>
  C9. For a damping factor \<open>d\<close> in \<open>[0, 1]\<close>, every value of a mapping that
  \<^verbatim>\<open>iterate_pagerank\<close> returns is at least \<open>(1 - d) / N\<close>, and is positive when
  \<open>d < 1\<close>; in that case a mapping is returned.
\<close>

theorem iterate_pagerank_lower_bound:
  assumes "valid_corpus corpus" and "0 \<le> damping_factor" and "damping_factor \<le> 1"
  shows "(\<forall>res. iterate_pagerank corpus damping_factor = Some res \<longrightarrow>
            (\<exists>page_rank. res = Inr page_rank \<and>
               (\<forall>p \<in> set (keys corpus). \<exists>v. dict_get page_rank p = Inr v \<and>
                  (1 - damping_factor) / real (length corpus) \<le> v \<and>
                  (damping_factor < 1 \<longrightarrow> 0 < v)))) \<and>
         (damping_factor < 1 \<longrightarrow>
            (\<exists>page_rank. iterate_pagerank corpus damping_factor = Some (Inr page_rank)))"
proof (intro conjI allI impI)
  fix res
  assume "iterate_pagerank corpus damping_factor = Some res"
  from iterate_pagerank_result[OF assms(1) this] obtain k where
    res: "res = Inr (ranks_after corpus damping_factor (Suc k))" ..
  let ?pr = "ranks_after corpus damping_factor (Suc k)"
  have "\<exists>v. dict_get ?pr p = Inr v \<and>
      (1 - damping_factor) / real (length corpus) \<le> v \<and> (damping_factor < 1 \<longrightarrow> 0 < v)"
    if p: "p \<in> set (keys corpus)" for p
  proof -
    have g: "dict_get ?pr p = Inr (rank_of ?pr p)"
      using p by (intro dict_get_rank_of) (simp add: keys_ranks_after)
    have lo: "(1 - damping_factor) / real (length corpus) \<le> rank_of ?pr p"
      by (rule ranks_after_lower[OF assms(2,3) p])
    have "0 < rank_of ?pr p" if "damping_factor < 1"
      by (rule ranks_after_pos[OF assms(2) that p])
    with g lo show ?thesis by blast
  qed
  with res show "\<exists>page_rank. res = Inr page_rank \<and>
      (\<forall>p \<in> set (keys corpus). \<exists>v. dict_get page_rank p = Inr v \<and>
         (1 - damping_factor) / real (length corpus) \<le> v \<and>
         (damping_factor < 1 \<longrightarrow> 0 < v))"
    by blast
next
  assume "damping_factor < 1"
  from iterate_pagerank_returns[OF assms(1,2) this]
  show "\<exists>page_rank. iterate_pagerank corpus damping_factor = Some (Inr page_rank)" by blast
qed

theorem iterate_pagerank_lower_bound_witness:
  "valid_corpus two_cycle \<and> (0::real) \<le> 85 / 100 \<and> (85::real) / 100 \<le> 1 \<and>
   (85::real) / 100 < 1 \<and>
   (\<exists>page_rank. iterate_pagerank two_cycle (85 / 100) = Some (Inr page_rank) \<and>
      (\<forall>p \<in> set (keys two_cycle). \<exists>v. dict_get page_rank p = Inr v \<and>
         (1 - 85 / 100) / real (length two_cycle) \<le> v \<and> 0 < v))"
proof -
  have h1: "(0::real) \<le> 85 / 100" and h2: "(85::real) / 100 \<le> 1"
    and h3: "(85::real) / 100 < 1"
    by simp_all
  note t = iterate_pagerank_lower_bound[OF valid_two_cycle h1 h2]
  from t h3 obtain page_rank where
    run: "iterate_pagerank two_cycle (85 / 100) = Some (Inr page_rank)"
    by blast
  with t h3 have "\<forall>p \<in> set (keys two_cycle). \<exists>v. dict_get page_rank p = Inr v \<and>
      (1 - 85 / 100) / real (length two_cycle) \<le> v \<and> 0 < v"
    by fastforce
  with run valid_two_cycle h1 h2 h3 show ?thesis by blast
qed

section \<open>Claims about self-links\<close>

text \<open>
  C10. In a sweep the incoming-link sum of page \<open>p\<close> ranges over the pages \<open>q\<close> with
  \<open>q \<noteq> p\<close> that link to \<open>p\<close>. Without self-links this is the sum over all pages that
  link to \<open>p\<close>. In a corpus without dangling links the ranks after a sweep sum to
  \<open>(1 - d) + d * (sum before - loss)\<close>, where the loss is \<open>rank q / |links q|\<close> for every
  page \<open>q\<close> that links to itself: the self-link counts in \<open>|links q|\<close> and gives nothing
  to \<open>q\<close>. So when some page links to itself, all ranks are positive and \<open>d > 0\<close>, the
  sum after the sweep is below \<open>(1 - d) + d * sum before\<close>, hence below 1 when the sum
  before is 1; and for \<open>0 < d < 1\<close> the mapping that \<^verbatim>\<open>iterate_pagerank\<close> returns
  sums to less than 1.
\<close>

theorem self_links_lose_rank:
  assumes "valid_corpus corpus" and "keys page_rank = keys corpus"
    and "calculated_pr = [] \<or> keys calculated_pr = keys corpus"
  shows "\<exists>new_ranks condition.
           sweep corpus damping_factor (length corpus) page_rank calculated_pr =
             Inr (new_ranks, new_ranks, condition) \<and>
           (\<forall>p \<in> set (keys corpus). dict_get new_ranks p = Inr
              ((1 - damping_factor) / real (length corpus) +
               damping_factor *
                 ((\<Sum>(q, links)\<leftarrow>filter (\<lambda>(q, links). p \<noteq> q \<and> p \<in> set links) corpus.
                      rank_of page_rank q / real (length links)) +
                  (\<Sum>(q, links)\<leftarrow>filter (\<lambda>(q, links). links = []) corpus.
                      rank_of page_rank q / real (length corpus))))) \<and>
           (no_self_links corpus \<longrightarrow>
              (\<forall>p \<in> set (keys corpus). dict_get new_ranks p =
                 Inr (spec_new_rank corpus damping_factor (rank_of page_rank) p))) \<and>
           (no_dangling_links corpus \<and> corpus \<noteq> [] \<longrightarrow>
              sum_list (vals new_ranks) =
                (1 - damping_factor) +
                damping_factor *
                  (sum_list (vals page_rank) - self_link_loss corpus (rank_of page_rank))) \<and>
           (no_dangling_links corpus \<and> \<not> no_self_links corpus \<and> 0 < damping_factor \<and>
            (\<forall>p \<in> set (keys corpus). 0 < rank_of page_rank p) \<longrightarrow>
              sum_list (vals new_ranks) <
                (1 - damping_factor) + damping_factor * sum_list (vals page_rank)) \<and>
           (no_dangling_links corpus \<and> \<not> no_self_links corpus \<and> 0 < damping_factor \<and>
            damping_factor < 1 \<longrightarrow>
              (\<exists>returned. iterate_pagerank corpus damping_factor = Some (Inr returned) \<and>
                 sum_list (vals returned) < 1))"
proof -
  let ?new = "next_ranks corpus damping_factor page_rank"
  let ?r = "rank_of page_rank"
  have code: "dict_get ?new p = Inr (new_rank corpus damping_factor ?r p)"
    if "p \<in> set (keys corpus)" for p
    using that dict_get_rank_of[of p ?new] by (simp add: keys_next_ranks rank_of_next_ranks)
  have a: "\<forall>p \<in> set (keys corpus). dict_get ?new p = Inr
      ((1 - damping_factor) / real (length corpus) +
       damping_factor *
         ((\<Sum>(q, links)\<leftarrow>filter (\<lambda>(q, links). p \<noteq> q \<and> p \<in> set links) corpus.
              ?r q / real (length links)) +
          (\<Sum>(q, links)\<leftarrow>filter (\<lambda>(q, links). links = []) corpus.
              ?r q / real (length corpus))))"
    using code by (simp add: link_sum_code_dict)
  have b: "no_self_links corpus \<longrightarrow>
      (\<forall>p \<in> set (keys corpus). dict_get ?new p =
         Inr (spec_new_rank corpus damping_factor ?r p))"
    using code by (simp add: new_rank_spec)
  have c: "no_dangling_links corpus \<and> corpus \<noteq> [] \<longrightarrow>
      sum_list (vals ?new) =
        (1 - damping_factor) +
        damping_factor * (sum_list (vals page_rank) - self_link_loss corpus ?r)"
    using sum_vals_next_ranks[OF assms(1) _ _ assms(2), of damping_factor] by blast
  have d: "no_dangling_links corpus \<and> \<not> no_self_links corpus \<and> 0 < damping_factor \<and>
      (\<forall>p \<in> set (keys corpus). 0 < ?r p) \<longrightarrow>
      sum_list (vals ?new) < (1 - damping_factor) + damping_factor * sum_list (vals page_rank)"
  proof (intro impI, elim conjE)
    assume nd: "no_dangling_links corpus" and sl: "\<not> no_self_links corpus"
      and dp: "0 < damping_factor" and pos: "\<forall>p \<in> set (keys corpus). 0 < ?r p"
    have ne: "corpus \<noteq> []" using sl by (auto simp: no_self_links_def)
    have "0 < damping_factor * self_link_loss corpus ?r"
      using self_link_loss_pos[OF sl pos] dp by simp
    then show "sum_list (vals ?new) <
        (1 - damping_factor) + damping_factor * sum_list (vals page_rank)"
      using sum_vals_next_ranks[OF assms(1) nd ne assms(2), of damping_factor]
      by (simp add: algebra_simps)
  qed
  have e: "no_dangling_links corpus \<and> \<not> no_self_links corpus \<and> 0 < damping_factor \<and>
      damping_factor < 1 \<longrightarrow>
      (\<exists>returned. iterate_pagerank corpus damping_factor = Some (Inr returned) \<and>
         sum_list (vals returned) < 1)"
  proof (intro impI, elim conjE)
    assume nd: "no_dangling_links corpus" and sl: "\<not> no_self_links corpus"
      and dp: "0 < damping_factor" and d1: "damping_factor < 1"
    have d0: "0 \<le> damping_factor" using dp by simp
    from iterate_pagerank_returns[OF assms(1) d0 d1] obtain k where
      "iterate_pagerank corpus damping_factor =
         Some (Inr (ranks_after corpus damping_factor (Suc k)))"
      by blast
    with sum_vals_ranks_after_lt[OF assms(1) nd sl dp d1, of k]
    show "\<exists>returned. iterate_pagerank corpus damping_factor = Some (Inr returned) \<and>
        sum_list (vals returned) < 1"
      by blast
  qed
  from sweep_eq[OF assms, of damping_factor] a b c d e show ?thesis by blast
qed

theorem self_links_lose_rank_witness:
  "valid_corpus self_linked \<and>
   keys [(''1.html'', 1 / 2 :: real), (''2.html'', 1 / 2)] = keys self_linked \<and>
   no_dangling_links self_linked \<and> \<not> no_self_links self_linked \<and>
   (0::real) < 85 / 100 \<and> (85::real) / 100 < 1 \<and>
   0 < rank_of [(''1.html'', 1 / 2), (''2.html'', 1 / 2)] ''1.html'' \<and>
   0 < rank_of [(''1.html'', 1 / 2), (''2.html'', 1 / 2)] ''2.html'' \<and>
   sum_list (vals [(''1.html'', 1 / 2 :: real), (''2.html'', 1 / 2)]) = 1 \<and>
   (\<exists>new_ranks condition.
      sweep self_linked (85 / 100) (length self_linked)
        [(''1.html'', 1 / 2), (''2.html'', 1 / 2)] [] = Inr (new_ranks, new_ranks, condition) \<and>
      sum_list (vals new_ranks) < 1) \<and>
   (\<exists>returned. iterate_pagerank self_linked (85 / 100) = Some (Inr returned) \<and>
      sum_list (vals returned) < 1)"
proof -
  have hc: "([] :: string dict) = [] \<or> keys ([] :: string dict) = keys self_linked" by simp
  have hd: "(0::real) < 85 / 100" "(85::real) / 100 < 1" by simp_all
  have hp: "\<forall>p \<in> set (keys self_linked).
      0 < rank_of [(''1.html'', 1 / 2), (''2.html'', 1 / 2)] p"
    by (simp add: self_linked_def keys_def rank_of_def)
  have hs: "sum_list (vals [(''1.html'', 1 / 2 :: real), (''2.html'', 1 / 2)]) = 1"
    by (simp add: vals_def)
  from self_links_lose_rank[OF valid_self_linked keys_initial_self_linked hc, of "85 / 100"]
  obtain new_ranks condition where
    sw: "sweep self_linked (85 / 100) (length self_linked)
           [(''1.html'', 1 / 2), (''2.html'', 1 / 2)] [] = Inr (new_ranks, new_ranks, condition)"
    and lt: "no_dangling_links self_linked \<and> \<not> no_self_links self_linked \<and>
        (0::real) < 85 / 100 \<and>
        (\<forall>p \<in> set (keys self_linked).
            0 < rank_of [(''1.html'', 1 / 2), (''2.html'', 1 / 2)] p) \<longrightarrow>
        sum_list (vals new_ranks) <
          (1 - 85 / 100) + 85 / 100 * sum_list (vals [(''1.html'', 1 / 2), (''2.html'', 1 / 2)])"
    and ret: "no_dangling_links self_linked \<and> \<not> no_self_links self_linked \<and>
        (0::real) < 85 / 100 \<and> (85::real) / 100 < 1 \<longrightarrow>
        (\<exists>returned. iterate_pagerank self_linked (85 / 100) = Some (Inr returned) \<and>
           sum_list (vals returned) < 1)"
    by blast
  from lt no_dangling_self_linked self_linked_has_self_link hd(1) hp
  have "sum_list (vals new_ranks) <
      (1 - 85 / 100) + 85 / 100 * sum_list (vals [(''1.html'', 1 / 2), (''2.html'', 1 / 2)])"
    by blast
  then have l1: "sum_list (vals new_ranks) < 1" unfolding hs by simp
  from ret no_dangling_self_linked self_linked_has_self_link hd
  have "\<exists>returned. iterate_pagerank self_linked (85 / 100) = Some (Inr returned) \<and>
      sum_list (vals returned) < 1"
    by blast
  moreover have "0 < rank_of [(''1.html'', 1 / 2), (''2.html'', 1 / 2)] ''1.html''"
    and "0 < rank_of [(''1.html'', 1 / 2), (''2.html'', 1 / 2)] ''2.html''"
    by (simp_all add: rank_of_def)
  ultimately show ?thesis
    using sw l1 valid_self_linked keys_initial_self_linked no_dangling_self_linked
      self_linked_has_self_link hd hs
    by blast
qed

section \<open>Claims about violated preconditions\<close>

text \<open>
  C4. The claim as stated fails: the program has no \<^verbatim>\<open>InvalidInput\<close> error and
  checks none of its preconditions. What the code does instead:
  \<^verbatim>\<open>sample_pagerank\<close> on an empty corpus raises \<^verbatim>\<open>IndexError\<close> (from
  \<^verbatim>\<open>random.choice\<close>), whatever \<open>n\<close> is; on a non-empty corpus with \<open>n = 0\<close> it
  raises \<^verbatim>\<open>ZeroDivisionError\<close>, and with \<open>n < 0\<close> it raises nothing and returns rank
  0 for every page; \<^verbatim>\<open>iterate_pagerank\<close> on an empty corpus raises nothing and
  returns the empty mapping.
\<close>

theorem precondition_violations:
  assumes "valid_corpus corpus" and "no_dangling_links corpus" and "corpus \<noteq> []"
    and "\<forall>t. 0 \<le> rnd t \<and> rnd t < 1"
  shows "sample_pagerank ([] :: 'a corpus) damping_factor n rnd = Inl IndexError \<and>
         sample_pagerank corpus damping_factor 0 rnd = Inl ZeroDivisionError \<and>
         (n < 0 \<longrightarrow> sample_pagerank corpus damping_factor n rnd =
                      Inr (map (\<lambda>key. (key, 0)) (keys corpus))) \<and>
         iterate_pagerank ([] :: 'a corpus) damping_factor = Some (Inr [])"
proof -
  have r0: "0 \<le> rnd 0" "rnd 0 < 1" using assms(4) by auto
  have "sample_pagerank corpus damping_factor n rnd = Inr (map (\<lambda>key. (key, 0)) (keys corpus))"
    if "n < 0"
  proof -
    from that have "n \<noteq> 0" "n \<le> 1" by auto
    from sample_pagerank_ok[where rnd = rnd and d = damping_factor,
        OF assms(1,2,3) \<open>n \<noteq> 0\<close> r0] \<open>n \<le> 1\<close>
    show ?thesis by auto
  qed
  then show ?thesis
    using sample_pagerank_zero[where rnd = rnd and d = damping_factor, OF assms(1,2,3) r0]
    by (simp add: sample_pagerank_empty iterate_pagerank_empty)
qed

theorem precondition_violations_witness:
  "valid_corpus two_cycle \<and> no_dangling_links two_cycle \<and> two_cycle \<noteq> [] \<and>
   (\<forall>t::nat. (0::real) \<le> 1 / 2 \<and> (1::real) / 2 < 1) \<and> (- 1 :: int) < 0 \<and>
   sample_pagerank ([] :: string corpus) (85 / 100) (- 1) (\<lambda>t. 1 / 2) = Inl IndexError \<and>
   sample_pagerank two_cycle (85 / 100) 0 (\<lambda>t. 1 / 2) = Inl ZeroDivisionError \<and>
   sample_pagerank two_cycle (85 / 100) (- 1) (\<lambda>t. 1 / 2) =
     Inr (map (\<lambda>key. (key, 0)) (keys two_cycle)) \<and>
   iterate_pagerank ([] :: string corpus) (85 / 100) = Some (Inr [])"
proof -
  have hr: "\<forall>t::nat. (0::real) \<le> (\<lambda>t. 1 / 2) t \<and> (\<lambda>t. (1::real) / 2) t < 1" by simp
  have hn: "(- 1 :: int) < 0" by simp
  from precondition_violations[where rnd = "\<lambda>t. 1 / 2" and damping_factor = "85 / 100"
      and n = "- 1", OF valid_two_cycle no_dangling_two_cycle two_cycle_nonempty hr]
    valid_two_cycle no_dangling_two_cycle two_cycle_nonempty hn
  show ?thesis by simp
qed

text \<open>
  C4, counterexample. \<^verbatim>\<open>iterate_pagerank\<close> on the empty corpus does not fail: it
  returns the empty mapping.
\<close>

theorem iterate_pagerank_empty_corpus_returns:
  "iterate_pagerank ([] :: string corpus) (85 / 100) = Some (Inr [])"
  by (rule iterate_pagerank_empty)

end
